theory Spec2Isabelle
  imports Main "HOL-Library.Sublist" "HOL-Library.Word"
begin

unbundle bit_operations_syntax

section \<open>Paths and the lexical operations of the standard library\<close>

text \<open>
  A Go string is a sequence of bytes; a path is a \<open>string\<close>. The build tag of
  \<open>join.go\<close> excludes js only; the model fixes the Unix separator.
\<close>

definition Separator :: char where
  "Separator = CHR ''/''"

text \<open>
  \<open>strings.IndexRune(s, Separator)\<close>: the index of the first separator, \<open>None\<close> for
  Go's \<open>-1\<close>.
\<close>

fun IndexRune :: "string \<Rightarrow> char \<Rightarrow> nat option" where
  "IndexRune [] r = None"
| "IndexRune (c # cs) r =
     (if c = r then Some 0 else map_option Suc (IndexRune cs r))"

text \<open>\<open>strings.HasPrefix\<close> and, on Unix, \<open>filepath.IsAbs\<close>.\<close>

definition HasPrefix :: "string \<Rightarrow> string \<Rightarrow> bool" where
  "HasPrefix s pre = prefix pre s"

definition IsAbs :: "string \<Rightarrow> bool" where
  "IsAbs p = HasPrefix p [Separator]"

text \<open>
  Modelled from the spec: \<open>filepath.Clean\<close>, the "lexical cleaning" of the glossary
  (resolving \<open>.\<close>, \<open>..\<close> and redundant separators by string rules only). The function
  belongs to Go's standard library and is absent from the sources. The model follows the
  library's documented rules on Unix, element by element: empty elements and \<open>.\<close> are
  dropped; \<open>..\<close> removes the preceding element that is not itself \<open>..\<close>, is dropped at
  the start of a rooted path, and is kept at the start of an unrooted one; the result
  ends in a separator only when it is the root; the empty result is \<open>.\<close>.
\<close>

fun elements :: "string \<Rightarrow> string list" where
  "elements [] = [[]]"
| "elements (c # cs) =
     (if c = CHR ''/'' then [] # elements cs
      else (case elements cs of [] \<Rightarrow> [[c]] | x # xs \<Rightarrow> (c # x) # xs))"

definition clean_elem :: "bool \<Rightarrow> string list \<Rightarrow> string \<Rightarrow> string list" where
  "clean_elem rooted out e =
     (if e = [] \<or> e = ''.'' then out
      else if e = ''..'' then
        (if out \<noteq> [] \<and> last out \<noteq> ''..'' then butlast out
         else if \<not> rooted then out @ [''..'']
         else out)
      else out @ [e])"

fun join_elems :: "string list \<Rightarrow> string" where
  "join_elems [] = []"
| "join_elems [e] = e"
| "join_elems (e # es) = e @ CHR ''/'' # join_elems es"

definition Clean :: "string \<Rightarrow> string" where
  "Clean p =
     (case p of
        [] \<Rightarrow> ''.''
      | c # cs \<Rightarrow>
          if c = CHR ''/'' then CHR ''/'' # join_elems (foldl (clean_elem True) [] (elements cs))
          else (case foldl (clean_elem False) [] (elements p) of
                  [] \<Rightarrow> ''.''
                | out \<Rightarrow> join_elems out))"

section \<open>Errors\<close>

text \<open>
  The error values the resolver handles, all of the standard library: \<open>os.ErrNotExist\<close>,
  a \<open>syscall.Errno\<close>, an \<open>*os.PathError\<close> wrapping another error, and any other error
  of the lookup capability. \<open>errors.Is\<close> compares the error with the target and follows
  the chain of \<open>Unwrap\<close>; \<open>Errno.Is\<close> makes \<open>ENOENT\<close> match \<open>os.ErrNotExist\<close>.
  \<open>IsNotExist\<close> is the function of lines 23 to 27.
\<close>

datatype errno = ENOENT | ENOTDIR | ELOOP | EACCES | EIO | EINVAL

datatype error =
    ErrNotExist
  | Errno errno
  | PathError (Op: string) (Path: string) (Err: error)
  | OtherError string

fun errors_Is :: "error \<Rightarrow> error \<Rightarrow> bool" where
  "errors_Is (PathError op p e) target =
     (PathError op p e = target \<or> errors_Is e target)"
| "errors_Is (Errno x) target =
     (Errno x = target \<or> (x = ENOENT \<and> target = ErrNotExist))"
| "errors_Is e target = (e = target)"

definition IsNotExist :: "error \<Rightarrow> bool" where
  "IsNotExist err =
     (errors_Is err ErrNotExist \<or> errors_Is err (Errno ENOTDIR) \<or> errors_Is err (Errno ENOENT))"

section \<open>The lookup capability\<close>

text \<open>
  \<open>os.FileInfo\<close> as the resolver reads it: the mode bits and \<open>IsDir()\<close>, two methods
  of an interface that an implementation answers independently.
\<close>

record FileInfo =
  Mode :: "32 word"
  IsDir :: bool

definition ModeDir :: "32 word" where
  "ModeDir = push_bit 31 1"

definition ModeSymlink :: "32 word" where
  "ModeSymlink = push_bit 27 1"

text \<open>
  The \<open>VFS\<close> interface. An implementation may keep state of its own (a mock that
  records calls, a filesystem that changes), so each method takes the state of the
  implementation and returns the new one with its answer. A Go method returns a pair
  of a value and an error; the value is read only when the error is nil.
\<close>

record 's VFS =
  Lstat :: "string \<Rightarrow> 's \<Rightarrow> (error + FileInfo) \<times> 's"
  Readlink :: "string \<Rightarrow> 's \<Rightarrow> (error + string) \<times> 's"

section \<open>SecureJoinVFS\<close>

text \<open>
  The local variables of the loop: the buffer \<open>path\<close>, the counter \<open>n\<close>, the
  unconsumed \<open>unsafePath\<close>, together with the state of the capability.
\<close>

record 's vars =
  path :: string
  n :: nat
  unsafePath :: string
  vfs_state :: 's

datatype 's outcome =
    Return "error + string" 's
  | Continue "'s vars"

text \<open>The next path component \<open>p\<close> and the rest of \<open>unsafePath\<close> (lines 54 to 60).\<close>

definition next_component :: "string \<Rightarrow> string \<times> string" where
  "next_component u =
     (case IndexRune u Separator of
        None \<Rightarrow> (u, [])
      | Some i \<Rightarrow> (take i u, drop (i + 1) u))"

text \<open>
  One pass through the body of the \<open>for\<close> loop, entered with a non-empty
  \<open>unsafePath\<close>; when \<open>unsafePath\<close> is empty, the code after the loop.
\<close>

definition step :: "string \<Rightarrow> 's VFS \<Rightarrow> 's vars \<Rightarrow> 's outcome" where
  "step root vfs v =
     (if unsafePath v = [] then
        Return (Inr (Clean (root @ Clean (Separator # path v)))) (vfs_state v)
      else if n v > 255 then
        Return (Inl (PathError ''SecureJoin'' (root @ ''/'' @ unsafePath v) (Errno ELOOP)))
          (vfs_state v)
      else
        let (p, rest) = next_component (unsafePath v);
            cleanP = Clean (Separator # path v @ p)
        in if cleanP = [Separator] then
             Continue (v\<lparr>path := [], unsafePath := rest\<rparr>)
           else
             let fullP = Clean (root @ cleanP);
                 (fi, s1) = Lstat vfs fullP (vfs_state v)
             in case fi of
                  Inl err \<Rightarrow>
                    if \<not> IsNotExist err then Return (Inl err) s1
                    else Continue (v\<lparr>path := path v @ p @ [Separator],
                                     unsafePath := rest, vfs_state := s1\<rparr>)
                | Inr fi \<Rightarrow>
                    if Mode fi AND ModeSymlink = 0 then
                      Continue (v\<lparr>path := path v @ p @ [Separator],
                                  unsafePath := rest, vfs_state := s1\<rparr>)
                    else
                      let (dest, s2) = Readlink vfs fullP s1
                      in case dest of
                           Inl err \<Rightarrow> Return (Inl err) s2
                         | Inr dest \<Rightarrow>
                             if IsAbs dest then
                               (if \<not> IsDir fi \<and> HasPrefix dest (root @ [Separator]) then
                                  Return (Inr (Clean dest)) s2
                                else
                                  Continue \<lparr>path = [], n = n v + 1,
                                    unsafePath = dest @ [Separator] @ rest, vfs_state = s2\<rparr>)
                             else
                               Continue \<lparr>path = path v, n = n v + 1,
                                 unsafePath = dest @ [Separator] @ rest, vfs_state = s2\<rparr>)"

text \<open>
  The loop. Each pass either shortens \<open>unsafePath\<close> with \<open>n\<close> unchanged, or
  increments \<open>n\<close>, which happens only while \<open>n \<le> 255\<close>.
\<close>

function SecureJoinVFS_loop :: "string \<Rightarrow> 's VFS \<Rightarrow> 's vars \<Rightarrow> (error + string) \<times> 's" where
  "SecureJoinVFS_loop root vfs v =
     (case step root vfs v of
        Return r s \<Rightarrow> (r, s)
      | Continue v' \<Rightarrow> SecureJoinVFS_loop root vfs v')"
  by pat_completeness auto
termination SecureJoinVFS_loop
proof (relation "measures [\<lambda>(root, vfs, v). 256 - n v, \<lambda>(root, vfs, v). length (unsafePath v)]")
  show "wf (measures [\<lambda>(root, vfs, v). 256 - n v,
    \<lambda>(root, vfs, v :: 's vars). length (unsafePath v)])"
    by simp
next
  fix root and vfs :: "'s VFS" and v v' :: "'s vars"
  assume st: "step root vfs v = Continue v'"
  have idx: "i < length u" if "IndexRune u r = Some i" for u r i
    using that by (induction u arbitrary: i) (auto split: if_splits)
  have shorter: "length rest < length u"
    if "u \<noteq> []" "next_component u = (p, rest)" for u p rest
    using that by (auto simp: next_component_def split: option.splits dest: idx)
  from st have "(n v' = n v \<and> length (unsafePath v') < length (unsafePath v))
      \<or> (n v \<le> 255 \<and> n v' = Suc (n v))"
    by (auto simp: step_def Let_def split: if_splits prod.splits sum.splits dest: shorter)
  then show "((root, vfs, v'), (root, vfs, v))
      \<in> measures [\<lambda>(root, vfs, v). 256 - n v, \<lambda>(root, vfs, v). length (unsafePath v)]"
    by auto
qed

text \<open>
  \<open>SecureJoinVFS\<close> (lines 40 to 111): the loop entered with an empty buffer and
  \<open>n = 0\<close>. The capability is always given: a nil \<open>vfs\<close> stands for the one of the
  operating system, which is one more value of \<open>'s VFS\<close>.
\<close>

definition SecureJoinVFS :: "string \<Rightarrow> string \<Rightarrow> 's VFS \<Rightarrow> 's \<Rightarrow> (error + string) \<times> 's" where
  "SecureJoinVFS root unsafePath0 vfs s =
     SecureJoinVFS_loop root vfs \<lparr>path = [], n = 0, unsafePath = unsafePath0, vfs_state = s\<rparr>"

text \<open>
  \<open>SecureJoin\<close> (lines 115 to 117) passes nil, which selects \<open>osVFS\<close>, the functions
  \<open>os.Lstat\<close> and \<open>os.Readlink\<close> of the operating system; they are a parameter here.
\<close>

definition SecureJoin :: "'s VFS \<Rightarrow> string \<Rightarrow> string \<Rightarrow> 's \<Rightarrow> (error + string) \<times> 's" where
  "SecureJoin osVFS root unsafePath0 s = SecureJoinVFS root unsafePath0 osVFS s"

section \<open>Notions used to state the properties\<close>

text \<open>The states of the loop reached from a given one.\<close>

inductive reach :: "string \<Rightarrow> 's VFS \<Rightarrow> 's vars \<Rightarrow> 's vars \<Rightarrow> bool"
  for root :: string and vfs :: "'s VFS" and v0 :: "'s vars" where
  reach_refl: "reach root vfs v0 v0"
| reach_step: "reach root vfs v0 v \<Longrightarrow> step root vfs v = Continue v' \<Longrightarrow> reach root vfs v0 v'"

text \<open>
  The path that a pass of the loop hands to \<open>Lstat\<close> (\<open>fullP\<close>, line 71), if the
  pass gets that far.
\<close>

definition examined :: "string \<Rightarrow> 's vars \<Rightarrow> string option" where
  "examined root v =
     (if unsafePath v = [] \<or> n v > 255 then None
      else
        let (p, rest) = next_component (unsafePath v);
            cleanP = Clean (Separator # path v @ p)
        in if cleanP = [Separator] then None else Some (Clean (root @ cleanP)))"

text \<open>What \<open>Lstat\<close> answers for an entry that the loop does not dereference.\<close>

definition not_a_link :: "error + FileInfo \<Rightarrow> bool" where
  "not_a_link r =
     (case r of Inl err \<Rightarrow> IsNotExist err | Inr fi \<Rightarrow> Mode fi AND ModeSymlink = 0)"

text \<open>
  The shape of a cleaned list of elements: elements \<open>..\<close> at the front only, and none
  in a rooted path, followed by proper names.
\<close>

definition real_elem :: "string \<Rightarrow> bool" where
  "real_elem e = (e \<noteq> [] \<and> e \<noteq> ''.'' \<and> e \<noteq> ''..'' \<and> CHR ''/'' \<notin> set e)"

definition canon :: "bool \<Rightarrow> string list \<Rightarrow> bool" where
  "canon rooted out =
     (\<exists>j rs. out = replicate j ''..'' @ rs \<and> (rooted \<longrightarrow> j = 0) \<and> (\<forall>e\<in>set rs. real_elem e))"

text \<open>
  No entry that a run of the loop from \<open>v0\<close> examines is dereferenced: whenever a pass
  hands a path to \<open>Lstat\<close>, the answer is an error of the not-found class or an entry
  that is not a symlink.
\<close>

definition no_links_met :: "string \<Rightarrow> 's VFS \<Rightarrow> 's vars \<Rightarrow> bool" where
  "no_links_met root vfs v0 =
     (\<forall>v q. reach root vfs v0 v \<and> examined root v = Some q
        \<longrightarrow> not_a_link (fst (Lstat vfs q (vfs_state v))))"

text \<open>
  A capability that never describes an entry as a symlink and a directory at once, as
  \<open>os.Lstat\<close> does, which describes the link itself.
\<close>

definition links_not_dirs :: "'s VFS \<Rightarrow> bool" where
  "links_not_dirs vfs =
     (\<forall>name s fi s'. Lstat vfs name s = (Inr fi, s') \<and> Mode fi AND ModeSymlink \<noteq> 0
        \<longrightarrow> \<not> IsDir fi)"

text \<open>
  Modelled from the spec: the "lexical join" of two paths, which is \<open>filepath.Join\<close> of
  the standard library, the function that the comment of \<open>SecureJoinVFS\<close> compares it
  with. Empty elements are ignored, the others are joined by the separator and cleaned.
\<close>

definition Join :: "string \<Rightarrow> string \<Rightarrow> string" where
  "Join a b =
     (if a = [] \<and> b = [] then []
      else if a = [] then Clean b
      else if b = [] then Clean a
      else Clean (a @ [Separator] @ b))"

text \<open>
  A capability that counts the calls made to it: the number of \<open>Lstat\<close> calls and the
  number of \<open>Readlink\<close> calls, the latter being the dereferences of one call of the
  resolver.
\<close>

definition counting :: "'s VFS \<Rightarrow> ('s \<times> nat \<times> nat) VFS" where
  "counting vfs =
     \<lparr>Lstat = (\<lambda>name (s, l, k).
        case Lstat vfs name s of (r, s') \<Rightarrow> (r, (s', Suc l, k))),
      Readlink = (\<lambda>name (s, l, k).
        case Readlink vfs name s of (r, s') \<Rightarrow> (r, (s', l, Suc k)))\<rparr>"

text \<open>The loop run with a bound on the number of passes: \<open>None\<close> when the bound is hit.\<close>

fun iterate :: "nat \<Rightarrow> string \<Rightarrow> 's VFS \<Rightarrow> 's vars \<Rightarrow> ((error + string) \<times> 's) option" where
  "iterate 0 root vfs v = None"
| "iterate (Suc k) root vfs v =
     (case step root vfs v of
        Return r s \<Rightarrow> Some (r, s)
      | Continue v' \<Rightarrow> iterate k root vfs v')"

section \<open>The variant without the directory check\<close>

text \<open>
  The resolver with the condition \<open>!fi.IsDir()\<close> of line 97 removed and nothing else
  changed: the short-circuit then depends on the prefix of the target alone.
\<close>

definition step_noIsDir :: "string \<Rightarrow> 's VFS \<Rightarrow> 's vars \<Rightarrow> 's outcome" where
  "step_noIsDir root vfs v =
     (if unsafePath v = [] then
        Return (Inr (Clean (root @ Clean (Separator # path v)))) (vfs_state v)
      else if n v > 255 then
        Return (Inl (PathError ''SecureJoin'' (root @ ''/'' @ unsafePath v) (Errno ELOOP)))
          (vfs_state v)
      else
        let (p, rest) = next_component (unsafePath v);
            cleanP = Clean (Separator # path v @ p)
        in if cleanP = [Separator] then
             Continue (v\<lparr>path := [], unsafePath := rest\<rparr>)
           else
             let fullP = Clean (root @ cleanP);
                 (fi, s1) = Lstat vfs fullP (vfs_state v)
             in case fi of
                  Inl err \<Rightarrow>
                    if \<not> IsNotExist err then Return (Inl err) s1
                    else Continue (v\<lparr>path := path v @ p @ [Separator],
                                     unsafePath := rest, vfs_state := s1\<rparr>)
                | Inr fi \<Rightarrow>
                    if Mode fi AND ModeSymlink = 0 then
                      Continue (v\<lparr>path := path v @ p @ [Separator],
                                  unsafePath := rest, vfs_state := s1\<rparr>)
                    else
                      let (dest, s2) = Readlink vfs fullP s1
                      in case dest of
                           Inl err \<Rightarrow> Return (Inl err) s2
                         | Inr dest \<Rightarrow>
                             if IsAbs dest then
                               (if HasPrefix dest (root @ [Separator]) then
                                  Return (Inr (Clean dest)) s2
                                else
                                  Continue \<lparr>path = [], n = n v + 1,
                                    unsafePath = dest @ [Separator] @ rest, vfs_state = s2\<rparr>)
                             else
                               Continue \<lparr>path = path v, n = n v + 1,
                                 unsafePath = dest @ [Separator] @ rest, vfs_state = s2\<rparr>)"

function SecureJoinVFS_loop_noIsDir ::
  "string \<Rightarrow> 's VFS \<Rightarrow> 's vars \<Rightarrow> (error + string) \<times> 's" where
  "SecureJoinVFS_loop_noIsDir root vfs v =
     (case step_noIsDir root vfs v of
        Return r s \<Rightarrow> (r, s)
      | Continue v' \<Rightarrow> SecureJoinVFS_loop_noIsDir root vfs v')"
  by pat_completeness auto

termination SecureJoinVFS_loop_noIsDir
proof (relation "measures [\<lambda>(root, vfs, v). 256 - n v, \<lambda>(root, vfs, v). length (unsafePath v)]")
  show "wf (measures [\<lambda>(root, vfs, v). 256 - n v,
    \<lambda>(root, vfs, v :: 's vars). length (unsafePath v)])"
    by simp
next
  fix root and vfs :: "'s VFS" and v v' :: "'s vars"
  assume st: "step_noIsDir root vfs v = Continue v'"
  have idx: "i < length u" if "IndexRune u r = Some i" for u r i
    using that by (induction u arbitrary: i) (auto split: if_splits)
  have shorter: "length rest < length u"
    if "u \<noteq> []" "next_component u = (p, rest)" for u p rest
    using that by (auto simp: next_component_def split: option.splits dest: idx)
  from st have "(n v' = n v \<and> length (unsafePath v') < length (unsafePath v))
      \<or> (n v \<le> 255 \<and> n v' = Suc (n v))"
    by (auto simp: step_noIsDir_def Let_def split: if_splits prod.splits sum.splits dest: shorter)
  then show "((root, vfs, v'), (root, vfs, v))
      \<in> measures [\<lambda>(root, vfs, v). 256 - n v, \<lambda>(root, vfs, v). length (unsafePath v)]"
    by auto
qed

definition SecureJoinVFS_noIsDir ::
  "string \<Rightarrow> string \<Rightarrow> 's VFS \<Rightarrow> 's \<Rightarrow> (error + string) \<times> 's" where
  "SecureJoinVFS_noIsDir root unsafePath0 vfs s =
     SecureJoinVFS_loop_noIsDir root vfs
       \<lparr>path = [], n = 0, unsafePath = unsafePath0, vfs_state = s\<rparr>"

section \<open>Filesystems for the concrete cases\<close>

definition link_info :: FileInfo where
  "link_info = \<lparr>Mode = ModeSymlink, IsDir = False\<rparr>"

definition file_info :: FileInfo where
  "file_info = \<lparr>Mode = 0, IsDir = False\<rparr>"

text \<open>An empty filesystem: every lookup reports that the entry does not exist.\<close>

definition empty_fs :: "unit VFS" where
  "empty_fs =
     \<lparr>Lstat = (\<lambda>name s. (Inl (PathError ''lstat'' name (Errno ENOENT)), s)),
      Readlink = (\<lambda>name s. (Inl (PathError ''readlink'' name (Errno ENOENT)), s))\<rparr>"

text \<open>A filesystem with one entry, described as \<open>fi\<close>, whose stored target is \<open>target\<close>.\<close>

definition one_entry_fs :: "string \<Rightarrow> FileInfo \<Rightarrow> string \<Rightarrow> unit VFS" where
  "one_entry_fs entry fi target =
     \<lparr>Lstat = (\<lambda>name s.
        (if name = entry then Inr fi else Inl (PathError ''lstat'' name (Errno ENOENT)), s)),
      Readlink = (\<lambda>name s.
        (if name = entry then Inr target
         else Inl (PathError ''readlink'' name (Errno EINVAL)), s))\<rparr>"

text \<open>A filesystem whose lookups all fail with \<open>EACCES\<close>.\<close>

definition denied_fs :: "unit VFS" where
  "denied_fs =
     \<lparr>Lstat = (\<lambda>name s. (Inl (PathError ''lstat'' name (Errno EACCES)), s)),
      Readlink = (\<lambda>name s. (Inl (PathError ''readlink'' name (Errno EACCES)), s))\<rparr>"

text \<open>
  A chain of \<open>m\<close> symbolic links under \<open>/safe\<close>. The \<open>k\<close>-th link is named by \<open>k\<close>
  letters \<open>a\<close>; it points to the link \<open>k + 1\<close>, and the last one points to \<open>final\<close>.
  The entry named by \<open>m + 1\<close> letters is a regular file; nothing else exists.
\<close>

definition chain_index :: "string \<Rightarrow> nat option" where
  "chain_index name =
     (let k = length name - 6
      in if 1 \<le> k \<and> name = ''/safe/'' @ replicate k CHR ''a'' then Some k else None)"

definition chain_fs :: "nat \<Rightarrow> string \<Rightarrow> unit VFS" where
  "chain_fs m final =
     \<lparr>Lstat = (\<lambda>name s.
        (case chain_index name of
           None \<Rightarrow> Inl (PathError ''lstat'' name (Errno ENOENT))
         | Some k \<Rightarrow>
             if k \<le> m then Inr link_info
             else if k = m + 1 then Inr file_info
             else Inl (PathError ''lstat'' name (Errno ENOENT)), s)),
      Readlink = (\<lambda>name s.
        (case chain_index name of
           None \<Rightarrow> Inl (PathError ''readlink'' name (Errno EINVAL))
         | Some k \<Rightarrow>
             if k < m then Inr (replicate (k + 1) CHR ''a'')
             else if k = m then Inr final
             else Inl (PathError ''readlink'' name (Errno EINVAL)), s))\<rparr>"

text \<open>
  The loop at the \<open>k\<close>-th link of a chain, run against the counting capability: an
  empty buffer, the counter \<open>i\<close>, the name of the link and a separator as remainder.
\<close>

abbreviation chain_vars :: "nat \<Rightarrow> nat \<Rightarrow> nat \<Rightarrow> nat \<Rightarrow> (unit \<times> nat \<times> nat) vars" where
  "chain_vars k i l c \<equiv>
     \<lparr>path = [], n = i, unsafePath = replicate k CHR ''a'' @ ''/'', vfs_state = ((), l, c)\<rparr>"

section \<open>Unfolding the loop\<close>

declare SecureJoinVFS_loop.simps [simp del]
declare SecureJoinVFS_loop_noIsDir.simps [simp del]

lemma loop_Return:
  "step root vfs v = Return r s \<Longrightarrow> SecureJoinVFS_loop root vfs v = (r, s)"
  by (simp add: SecureJoinVFS_loop.simps)

lemma loop_Continue:
  "step root vfs v = Continue v' \<Longrightarrow>
   SecureJoinVFS_loop root vfs v = SecureJoinVFS_loop root vfs v'"
  by (simp add: SecureJoinVFS_loop.simps)

lemmas lex_simps = next_component_def Separator_def Clean_def clean_elem_def

lemmas fs_simps = one_entry_fs_def empty_fs_def denied_fs_def link_info_def file_info_def
  ModeSymlink_def IsAbs_def HasPrefix_def IsNotExist_def

section \<open>Absolute symlink targets\<close>

lemma step_symlink_abs:
  assumes "unsafePath v \<noteq> []" and "n v \<le> 255"
    and "next_component (unsafePath v) = (p, rest)"
    and "Clean (Separator # path v @ p) \<noteq> [Separator]"
    and "Lstat vfs (Clean (root @ Clean (Separator # path v @ p))) (vfs_state v) = (Inr fi, s1)"
    and "Mode fi AND ModeSymlink \<noteq> 0"
    and "Readlink vfs (Clean (root @ Clean (Separator # path v @ p))) s1 = (Inr dest, s2)"
    and "IsAbs dest"
  shows "step root vfs v =
     (if \<not> IsDir fi \<and> HasPrefix dest (root @ [Separator]) then Return (Inr (Clean dest)) s2
      else Continue \<lparr>path = [], n = n v + 1, unsafePath = dest @ [Separator] @ rest,
        vfs_state = s2\<rparr>)"
  using assms by (simp add: step_def)

text \<open>
  Claim C3. A pass of the loop examines an entry (the remainder is not empty, the
  counter is at most 255, the candidate does not collapse to the separator), \<open>Lstat\<close>
  describes it as a symlink and \<open>Readlink\<close> gives an absolute target. If the entry is
  not a directory and the raw target begins with \<open>root\<close> followed by the separator, the
  resolver returns the cleaned target at once. Otherwise it goes on with an empty
  buffer, the counter incremented, and the target followed by a separator in front of
  the unconsumed rest.
\<close>

theorem absolute_symlink_target:
  assumes "unsafePath v \<noteq> []" and "n v \<le> 255"
    and "next_component (unsafePath v) = (p, rest)"
    and "Clean (Separator # path v @ p) \<noteq> [Separator]"
    and "Lstat vfs (Clean (root @ Clean (Separator # path v @ p))) (vfs_state v) = (Inr fi, s1)"
    and "Mode fi AND ModeSymlink \<noteq> 0"
    and "Readlink vfs (Clean (root @ Clean (Separator # path v @ p))) s1 = (Inr dest, s2)"
    and "IsAbs dest"
  shows "SecureJoinVFS_loop root vfs v =
     (if \<not> IsDir fi \<and> HasPrefix dest (root @ [Separator]) then (Inr (Clean dest), s2)
      else SecureJoinVFS_loop root vfs
        \<lparr>path = [], n = n v + 1, unsafePath = dest @ [Separator] @ rest, vfs_state = s2\<rparr>)"
proof (cases "\<not> IsDir fi \<and> HasPrefix dest (root @ [Separator])")
  case True
  with step_symlink_abs[OF assms] show ?thesis
    by (simp add: loop_Return)
next
  case False
  with step_symlink_abs[OF assms] show ?thesis
    by (auto simp add: loop_Continue)
qed

theorem absolute_symlink_target_witness:
  "SecureJoinVFS_loop ''/safe'' (one_entry_fs ''/safe/link'' link_info ''/safe/data/file'')
     \<lparr>path = [], n = 0, unsafePath = ''link/x'', vfs_state = ()\<rparr>
   = (Inr ''/safe/data/file'', ())"
  using absolute_symlink_target
    [where v = "\<lparr>path = [], n = 0, unsafePath = ''link/x'', vfs_state = ()\<rparr>"
      and p = "''link''" and rest = "''x''"
      and vfs = "one_entry_fs ''/safe/link'' link_info ''/safe/data/file''"
      and root = "''/safe''" and fi = link_info and ?s1.0 = "()"
      and dest = "''/safe/data/file''" and ?s2.0 = "()"]
  by (simp add: lex_simps fs_simps)

section \<open>The clamp\<close>

lemma step_clamp:
  assumes "unsafePath v \<noteq> []" and "n v \<le> 255"
    and "next_component (unsafePath v) = (p, rest)"
    and "Clean (Separator # path v @ p) = [Separator]"
  shows "step root vfs v = Continue (v\<lparr>path := [], unsafePath := rest\<rparr>)"
  using assms by (simp add: step_def)

text \<open>
  Claim C5. For every root and every capability, resolving \<open>/../../../x\<close> gives the
  same result and the same error as resolving \<open>/x\<close>. In general, when the cleaned
  combination of the buffer with the next component is the separator alone, the pass
  empties the buffer, keeps the counter and the state of the capability, and goes on
  with the rest: no lookup is made and no error is raised.
\<close>

theorem dotdot_clamped:
  "SecureJoinVFS root ''/../../../x'' vfs s = SecureJoinVFS root ''/x'' vfs s
   \<and> (\<forall>v p rest. unsafePath v \<noteq> [] \<and> n v \<le> 255
        \<and> next_component (unsafePath v) = (p, rest)
        \<and> Clean (Separator # path v @ p) = [Separator]
      \<longrightarrow> step root vfs v = Continue (v\<lparr>path := [], unsafePath := rest\<rparr>)
        \<and> SecureJoinVFS_loop root vfs v
            = SecureJoinVFS_loop root vfs (v\<lparr>path := [], unsafePath := rest\<rparr>))"
proof -
  let ?v = "\<lambda>u. \<lparr>path = [], n = 0, unsafePath = u, vfs_state = s\<rparr>"
  have a: "step root vfs (?v ''/../../../x'') = Continue (?v ''../../../x'')"
    by (simp add: step_def lex_simps)
  have b: "step root vfs (?v ''../../../x'') = Continue (?v ''../../x'')"
    by (simp add: step_def lex_simps)
  have c: "step root vfs (?v ''../../x'') = Continue (?v ''../x'')"
    by (simp add: step_def lex_simps)
  have d: "step root vfs (?v ''../x'') = Continue (?v ''x'')"
    by (simp add: step_def lex_simps)
  have e: "step root vfs (?v ''/x'') = Continue (?v ''x'')"
    by (simp add: step_def lex_simps)
  have "SecureJoinVFS root ''/../../../x'' vfs s = SecureJoinVFS root ''/x'' vfs s"
    by (simp add: SecureJoinVFS_def loop_Continue[OF a] loop_Continue[OF b]
        loop_Continue[OF c] loop_Continue[OF d] loop_Continue[OF e])
  moreover have "step root vfs v = Continue (v\<lparr>path := [], unsafePath := rest\<rparr>)
      \<and> SecureJoinVFS_loop root vfs v
          = SecureJoinVFS_loop root vfs (v\<lparr>path := [], unsafePath := rest\<rparr>)"
    if "unsafePath v \<noteq> []" "n v \<le> 255" "next_component (unsafePath v) = (p, rest)"
      "Clean (Separator # path v @ p) = [Separator]" for v :: "'a vars" and p rest
    using step_clamp[OF that] by (simp add: loop_Continue)
  ultimately show ?thesis by blast
qed

theorem dotdot_clamped_witness:
  "SecureJoinVFS ''/safe'' ''/../../../x'' empty_fs () = (Inr ''/safe/x'', ())
   \<and> SecureJoinVFS ''/safe'' ''/x'' empty_fs () = (Inr ''/safe/x'', ())
   \<and> step ''/safe'' empty_fs \<lparr>path = ''a/'', n = 0, unsafePath = ''../x'', vfs_state = ()\<rparr>
       = Continue \<lparr>path = [], n = 0, unsafePath = ''x'', vfs_state = ()\<rparr>"
proof -
  let ?v = "\<lambda>pa u. \<lparr>path = pa, n = 0, unsafePath = u, vfs_state = ()\<rparr>"
  have a: "step ''/safe'' empty_fs (?v [] ''/x'') = Continue (?v [] ''x'')"
    by (simp add: step_def lex_simps)
  have b: "step ''/safe'' empty_fs (?v [] ''x'') = Continue (?v ''x/'' [])"
    by (simp add: step_def lex_simps fs_simps)
  have c: "step ''/safe'' empty_fs (?v ''x/'' []) = Return (Inr ''/safe/x'') ()"
    by (simp add: step_def lex_simps)
  have r: "SecureJoinVFS ''/safe'' ''/x'' empty_fs () = (Inr ''/safe/x'', ())"
    by (simp add: SecureJoinVFS_def loop_Continue[OF a] loop_Continue[OF b] loop_Return[OF c])
  from dotdot_clamped[of "''/safe''" empty_fs "()"]
  have eq: "SecureJoinVFS ''/safe'' ''/../../../x'' empty_fs () = SecureJoinVFS ''/safe'' ''/x'' empty_fs ()"
    and cl: "\<And>v p rest. unsafePath v \<noteq> [] \<Longrightarrow> n v \<le> 255 \<Longrightarrow> next_component (unsafePath v) = (p, rest)
      \<Longrightarrow> Clean (Separator # path v @ p) = [Separator]
      \<Longrightarrow> step ''/safe'' empty_fs v = Continue (v\<lparr>path := [], unsafePath := rest\<rparr>)"
    by blast+
  have "step ''/safe'' empty_fs (?v ''a/'' ''../x'') = Continue (?v [] ''x'')"
    using cl[of "?v ''a/'' ''../x''" "''..''" "''x''"] by (simp add: lex_simps)
  with eq r show ?thesis by simp
qed

section \<open>Errors of the capability\<close>

lemma step_Lstat:
  assumes "unsafePath v \<noteq> []" and "n v \<le> 255"
    and "next_component (unsafePath v) = (p, rest)"
    and "Clean (Separator # path v @ p) \<noteq> [Separator]"
    and "Lstat vfs (Clean (root @ Clean (Separator # path v @ p))) (vfs_state v) = (r, s1)"
  shows "step root vfs v =
     (case r of
        Inl err \<Rightarrow>
          if \<not> IsNotExist err then Return (Inl err) s1
          else Continue (v\<lparr>path := path v @ p @ [Separator], unsafePath := rest,
                 vfs_state := s1\<rparr>)
      | Inr fi \<Rightarrow>
          if Mode fi AND ModeSymlink = 0 then
            Continue (v\<lparr>path := path v @ p @ [Separator], unsafePath := rest,
              vfs_state := s1\<rparr>)
          else
            (case Readlink vfs (Clean (root @ Clean (Separator # path v @ p))) s1 of
               (Inl err, s2) \<Rightarrow> Return (Inl err) s2
             | (Inr dest, s2) \<Rightarrow>
                 if IsAbs dest then
                   (if \<not> IsDir fi \<and> HasPrefix dest (root @ [Separator]) then
                      Return (Inr (Clean dest)) s2
                    else Continue \<lparr>path = [], n = n v + 1,
                      unsafePath = dest @ [Separator] @ rest, vfs_state = s2\<rparr>)
                 else Continue \<lparr>path = path v, n = n v + 1,
                   unsafePath = dest @ [Separator] @ rest, vfs_state = s2\<rparr>))"
  using assms by (simp add: step_def split: sum.splits prod.splits)

lemma IsNotExist_class:
  "IsNotExist ErrNotExist" "IsNotExist (Errno ENOENT)" "IsNotExist (Errno ENOTDIR)"
  "IsNotExist (PathError op p (Errno ENOENT))" "IsNotExist (PathError op p (Errno ENOTDIR))"
  "\<not> IsNotExist (Errno EACCES)" "\<not> IsNotExist (Errno EIO)"
  "\<not> IsNotExist (PathError op p (Errno EACCES))"
  by (simp_all add: IsNotExist_def)

text \<open>
  Claim C6. In a pass that examines an entry: an error of \<open>Lstat\<close> outside the
  not-found class ends the call with that same error value; for an entry described as a
  symlink, an error of \<open>Readlink\<close> ends the call with that same error value; an error
  of \<open>Lstat\<close> in the not-found class is no error for the resolver, and the pass has the
  same effect as for an entry that exists and is not a symlink: the component and a
  separator are appended to the buffer and the loop goes on with the rest. The
  not-found class holds \<open>os.ErrNotExist\<close>, \<open>ENOENT\<close> and \<open>ENOTDIR\<close>.
\<close>

theorem lookup_errors:
  assumes "unsafePath v \<noteq> []" and "n v \<le> 255"
    and "next_component (unsafePath v) = (p, rest)"
    and "Clean (Separator # path v @ p) \<noteq> [Separator]"
    and "fullP = Clean (root @ Clean (Separator # path v @ p))"
    and "Lstat vfs fullP (vfs_state v) = (r, s1)"
    and "accepted = v\<lparr>path := path v @ p @ [Separator], unsafePath := rest, vfs_state := s1\<rparr>"
  shows "(\<forall>err. r = Inl err \<and> \<not> IsNotExist err \<longrightarrow>
            SecureJoinVFS_loop root vfs v = (Inl err, s1))
    \<and> (\<forall>fi err s2. r = Inr fi \<and> Mode fi AND ModeSymlink \<noteq> 0
            \<and> Readlink vfs fullP s1 = (Inl err, s2) \<longrightarrow>
            SecureJoinVFS_loop root vfs v = (Inl err, s2))
    \<and> (\<forall>err. r = Inl err \<and> IsNotExist err \<longrightarrow>
            step root vfs v = Continue accepted
            \<and> SecureJoinVFS_loop root vfs v = SecureJoinVFS_loop root vfs accepted)
    \<and> (\<forall>fi. r = Inr fi \<and> Mode fi AND ModeSymlink = 0 \<longrightarrow>
            step root vfs v = Continue accepted
            \<and> SecureJoinVFS_loop root vfs v = SecureJoinVFS_loop root vfs accepted)
    \<and> IsNotExist ErrNotExist \<and> IsNotExist (Errno ENOENT) \<and> IsNotExist (Errno ENOTDIR)"
proof -
  note st = step_Lstat[OF assms(1-4) assms(6)[unfolded assms(5)]]
  have 1: "SecureJoinVFS_loop root vfs v = (Inl err, s1)"
    if "r = Inl err" "\<not> IsNotExist err" for err
    using st that by (simp add: loop_Return)
  have 2: "SecureJoinVFS_loop root vfs v = (Inl err, s2)"
    if "r = Inr fi" "Mode fi AND ModeSymlink \<noteq> 0" "Readlink vfs fullP s1 = (Inl err, s2)"
    for fi err s2
    using st that by (simp add: loop_Return assms(5))
  have 3: "step root vfs v = Continue accepted
      \<and> SecureJoinVFS_loop root vfs v = SecureJoinVFS_loop root vfs accepted"
    if "r = Inl err" "IsNotExist err" for err
    using st that by (simp add: loop_Continue assms(7))
  have 4: "step root vfs v = Continue accepted
      \<and> SecureJoinVFS_loop root vfs v = SecureJoinVFS_loop root vfs accepted"
    if "r = Inr fi" "Mode fi AND ModeSymlink = 0" for fi
    using st that by (simp add: loop_Continue assms(7))
  from 1 2 3 4 show ?thesis
    by (simp add: IsNotExist_class)
qed

theorem lookup_errors_witness:
  "SecureJoinVFS_loop ''/safe'' denied_fs
     \<lparr>path = [], n = 0, unsafePath = ''x/y'', vfs_state = ()\<rparr>
   = (Inl (PathError ''lstat'' ''/safe/x'' (Errno EACCES)), ())"
  using lookup_errors
    [where v = "\<lparr>path = [], n = 0, unsafePath = ''x/y'', vfs_state = ()\<rparr>"
      and p = "''x''" and rest = "''y''" and vfs = denied_fs and root = "''/safe''"
      and fullP = "''/safe/x''" and ?s1.0 = "()"
      and r = "Inl (PathError ''lstat'' ''/safe/x'' (Errno EACCES))"
      and accepted = "\<lparr>path = ''x/'', n = 0, unsafePath = ''y'', vfs_state = ()\<rparr>"]
  by (simp add: lex_simps fs_simps)

section \<open>Termination\<close>

lemma IndexRune_less: "IndexRune u r = Some i \<Longrightarrow> i < length u"
  by (induction u arbitrary: i) (auto split: if_splits)

lemma next_component_shorter:
  "u \<noteq> [] \<Longrightarrow> length (snd (next_component u)) < length u"
  by (auto simp: next_component_def split: option.splits dest: IndexRune_less)

lemma step_progress:
  assumes "step root vfs v = Continue v'"
  shows "(n v' = n v \<and> unsafePath v' = snd (next_component (unsafePath v))
          \<and> length (unsafePath v') < length (unsafePath v))
       \<or> (n v \<le> 255 \<and> n v' = n v + 1)"
proof -
  from assms have ne: "unsafePath v \<noteq> []"
    by (auto simp: step_def)
  from assms have "(n v' = n v \<and> unsafePath v' = snd (next_component (unsafePath v)))
       \<or> (n v \<le> 255 \<and> n v' = n v + 1)"
    by (auto simp: step_def Let_def split: if_splits prod.splits sum.splits)
  with next_component_shorter[OF ne] show ?thesis by auto
qed

lemma reach_counter: "reach root vfs v0 v \<Longrightarrow> n v0 \<le> 256 \<Longrightarrow> n v \<le> 256"
proof (induction rule: reach.induct)
  case reach_refl
  then show ?case by simp
next
  case (reach_step v v')
  from step_progress[OF reach_step.hyps(2)] reach_step show ?case by auto
qed

lemma iterate_enough: "\<exists>k. iterate k root vfs v = Some (SecureJoinVFS_loop root vfs v)"
proof (induction root vfs v rule: SecureJoinVFS_loop.induct)
  case (1 root vfs v)
  show ?case
  proof (cases "step root vfs v")
    case (Return r s)
    then have "iterate (Suc 0) root vfs v = Some (SecureJoinVFS_loop root vfs v)"
      by (simp add: loop_Return)
    then show ?thesis ..
  next
    case (Continue v')
    from 1[OF this] obtain k where "iterate k root vfs v' = Some (SecureJoinVFS_loop root vfs v')" ..
    with Continue have "iterate (Suc k) root vfs v = Some (SecureJoinVFS_loop root vfs v)"
      by (simp add: loop_Continue)
    then show ?thesis ..
  qed
qed

text \<open>
  Claim C8. For every root, path, capability and state of the capability the resolver
  returns: some number of passes of the loop produces the result. Each pass that does
  not return either leaves the counter as it is and replaces the remainder by what
  follows its first component, which is strictly shorter, or increments the counter,
  which it does only while the counter is at most 255. In a call, which starts with
  the counter at 0, the counter never exceeds 256.
\<close>

theorem resolve_terminates:
  "(\<exists>k. iterate k root vfs \<lparr>path = [], n = 0, unsafePath = unsafePath0, vfs_state = s\<rparr>
          = Some (SecureJoinVFS root unsafePath0 vfs s))
   \<and> (\<forall>v v'. step root vfs v = Continue v' \<longrightarrow>
          (n v' = n v \<and> unsafePath v' = snd (next_component (unsafePath v))
             \<and> length (unsafePath v') < length (unsafePath v))
          \<or> (n v \<le> 255 \<and> n v' = n v + 1))
   \<and> (\<forall>v. reach root vfs \<lparr>path = [], n = 0, unsafePath = unsafePath0, vfs_state = s\<rparr> v
          \<longrightarrow> n v \<le> 256)"
proof -
  have "n v \<le> 256"
    if "reach root vfs \<lparr>path = [], n = 0, unsafePath = unsafePath0, vfs_state = s\<rparr> v" for v
    using reach_counter[OF that] by simp
  with iterate_enough[of root vfs] step_progress[of root vfs] show ?thesis
    unfolding SecureJoinVFS_def by blast
qed

theorem resolve_terminates_witness:
  "(\<exists>k. iterate k ''/safe'' (one_entry_fs ''/safe/a'' link_info ''a'')
          \<lparr>path = [], n = 0, unsafePath = ''a'', vfs_state = ()\<rparr>
        = Some (SecureJoinVFS ''/safe'' ''a'' (one_entry_fs ''/safe/a'' link_info ''a'') ()))
   \<and> step ''/safe'' (one_entry_fs ''/safe/a'' link_info ''a'')
          \<lparr>path = [], n = 0, unsafePath = ''a'', vfs_state = ()\<rparr>
        = Continue \<lparr>path = [], n = 1, unsafePath = ''a/'', vfs_state = ()\<rparr>
   \<and> n \<lparr>path = [], n = 1, unsafePath = ''a/'', vfs_state = ()\<rparr> \<le> 256"
proof -
  let ?fs = "one_entry_fs ''/safe/a'' link_info ''a''"
  let ?v0 = "\<lparr>path = [], n = 0, unsafePath = ''a'', vfs_state = ()\<rparr>"
  let ?v1 = "\<lparr>path = [], n = 1, unsafePath = ''a/'', vfs_state = ()\<rparr>"
  have st: "step ''/safe'' ?fs ?v0 = Continue ?v1"
    by (simp add: step_def lex_simps fs_simps)
  have "reach ''/safe'' ?fs ?v0 ?v1"
    using reach_step[OF reach_refl st] .
  with resolve_terminates[of "''/safe''" ?fs "''a''" "()"] st show ?thesis
    by blast
qed

section \<open>The directory check of the short-circuit\<close>

lemma loop_noIsDir_Return:
  "step_noIsDir root vfs v = Return r s \<Longrightarrow> SecureJoinVFS_loop_noIsDir root vfs v = (r, s)"
  by (simp add: SecureJoinVFS_loop_noIsDir.simps)

lemma loop_noIsDir_Continue:
  "step_noIsDir root vfs v = Continue v' \<Longrightarrow>
   SecureJoinVFS_loop_noIsDir root vfs v = SecureJoinVFS_loop_noIsDir root vfs v'"
  by (simp add: SecureJoinVFS_loop_noIsDir.simps)

lemma step_noIsDir_eq:
  assumes "links_not_dirs vfs"
  shows "step_noIsDir root vfs v = step root vfs v"
proof -
  have nd: "\<not> IsDir fi" if "Lstat vfs name s = (Inr fi, s')" "Mode fi AND ModeSymlink \<noteq> 0"
    for name s fi s'
    using assms that unfolding links_not_dirs_def by blast
  show ?thesis
    unfolding step_def step_noIsDir_def
    by (auto simp: Let_def split: prod.splits sum.splits dest: nd)
qed

lemma loop_noIsDir_eq:
  assumes "links_not_dirs vfs"
  shows "SecureJoinVFS_loop_noIsDir root vfs v = SecureJoinVFS_loop root vfs v"
  using assms
proof (induction root vfs v rule: SecureJoinVFS_loop.induct)
  case (1 root vfs v)
  show ?case
  proof (cases "step root vfs v")
    case (Return r s)
    then show ?thesis
      using step_noIsDir_eq[OF 1(2), of root v]
      by (simp add: loop_Return loop_noIsDir_Return)
  next
    case (Continue v')
    with 1 step_noIsDir_eq[OF 1(2), of root v] show ?thesis
      by (simp add: loop_Continue loop_noIsDir_Continue)
  qed
qed

text \<open>
  Claim C10. Let the capability never describe an entry as a symlink and a directory at
  once. Then the resolver returns the same result and the same state of the capability as
  the variant without the directory check. In a pass that finds a symlink with an
  absolute target, the entry is not a directory, and the pass returns the cleaned target
  when the raw target begins with \<open>root\<close> followed by the separator and goes on
  otherwise.
\<close>

theorem IsDir_check_redundant:
  assumes "links_not_dirs vfs"
  shows "SecureJoinVFS root unsafePath0 vfs s = SecureJoinVFS_noIsDir root unsafePath0 vfs s
    \<and> (\<forall>v p rest fi s1 dest s2.
          unsafePath v \<noteq> [] \<and> n v \<le> 255 \<and> next_component (unsafePath v) = (p, rest)
          \<and> Clean (Separator # path v @ p) \<noteq> [Separator]
          \<and> Lstat vfs (Clean (root @ Clean (Separator # path v @ p))) (vfs_state v)
              = (Inr fi, s1)
          \<and> Mode fi AND ModeSymlink \<noteq> 0
          \<and> Readlink vfs (Clean (root @ Clean (Separator # path v @ p))) s1 = (Inr dest, s2)
          \<and> IsAbs dest
        \<longrightarrow> \<not> IsDir fi
          \<and> step root vfs v =
             (if HasPrefix dest (root @ [Separator]) then Return (Inr (Clean dest)) s2
              else Continue \<lparr>path = [], n = n v + 1,
                unsafePath = dest @ [Separator] @ rest, vfs_state = s2\<rparr>))"
proof -
  have nd: "\<not> IsDir fi" if "Lstat vfs name s = (Inr fi, s')" "Mode fi AND ModeSymlink \<noteq> 0"
    for name s fi s'
    using assms that unfolding links_not_dirs_def by blast
  have "SecureJoinVFS root unsafePath0 vfs s = SecureJoinVFS_noIsDir root unsafePath0 vfs s"
    by (simp add: SecureJoinVFS_def SecureJoinVFS_noIsDir_def loop_noIsDir_eq[OF assms])
  moreover have "\<not> IsDir fi \<and> step root vfs v =
       (if HasPrefix dest (root @ [Separator]) then Return (Inr (Clean dest)) s2
        else Continue \<lparr>path = [], n = n v + 1,
          unsafePath = dest @ [Separator] @ rest, vfs_state = s2\<rparr>)"
    if "unsafePath v \<noteq> []" "n v \<le> 255" "next_component (unsafePath v) = (p, rest)"
      "Clean (Separator # path v @ p) \<noteq> [Separator]"
      "Lstat vfs (Clean (root @ Clean (Separator # path v @ p))) (vfs_state v) = (Inr fi, s1)"
      "Mode fi AND ModeSymlink \<noteq> 0"
      "Readlink vfs (Clean (root @ Clean (Separator # path v @ p))) s1 = (Inr dest, s2)"
      "IsAbs dest" for v p rest fi s1 dest s2
    using step_symlink_abs[OF that] nd[OF that(5,6)] by simp
  ultimately show ?thesis by blast
qed

theorem IsDir_check_redundant_witness:
  "links_not_dirs (one_entry_fs ''/safe/link'' link_info ''/safe/data/file'')
   \<and> SecureJoinVFS_noIsDir ''/safe'' ''link/x''
        (one_entry_fs ''/safe/link'' link_info ''/safe/data/file'') ()
      = (Inr ''/safe/data/file'', ())"
proof -
  let ?fs = "one_entry_fs ''/safe/link'' link_info ''/safe/data/file''"
  have h: "links_not_dirs ?fs"
    by (simp add: links_not_dirs_def fs_simps)
  have "SecureJoinVFS ''/safe'' ''link/x'' ?fs () = (Inr ''/safe/data/file'', ())"
    unfolding SecureJoinVFS_def
    by (rule loop_Return) (simp add: step_def lex_simps fs_simps)
  with IsDir_check_redundant[OF h, of "''/safe''" "''link/x''" "()"] h show ?thesis
    by simp
qed

section \<open>Lexical facts\<close>

text \<open>The model of \<open>Clean\<close> on cases of the library's own test table.\<close>

lemma Clean_examples:
  "Clean '''' = ''.''" "Clean ''abc/def'' = ''abc/def''" "Clean ''..'' = ''..''"
  "Clean ''../../abc'' = ''../../abc''" "Clean ''/'' = ''/''" "Clean ''abc/'' = ''abc''"
  "Clean ''../../'' = ''../..''" "Clean ''abc//def//ghi'' = ''abc/def/ghi''"
  "Clean ''//abc//'' = ''/abc''" "Clean ''/./abc/def'' = ''/abc/def''"
  "Clean ''abc/def/ghi/../jkl'' = ''abc/def/jkl''" "Clean ''abc/def/../..'' = ''.''"
  "Clean ''/abc/def/../..'' = ''/''" "Clean ''abc/def/../../..'' = ''..''"
  "Clean ''/abc/def/../../..'' = ''/''"
  "Clean ''abc/def/../../../ghi/jkl/../../../mno'' = ''../../mno''"
  "Clean ''/../abc'' = ''/abc''" "Clean ''abc//./../def'' = ''def''"
  "Clean ''abc/../../././../def'' = ''../../def''"
  by (simp_all add: Clean_def clean_elem_def)

lemma elements_not_Nil [simp]: "elements u \<noteq> []"
  by (induction u) (auto split: list.splits)

lemma elements_append_sep: "elements (a @ CHR ''/'' # b) = elements a @ elements b"
  by (induction a) (auto split: list.splits)

lemma elements_no_sep: "CHR ''/'' \<notin> set p \<Longrightarrow> elements p = [p]"
  by (induction p) auto

lemma IndexRune_None: "IndexRune u r = None \<Longrightarrow> r \<notin> set u"
  by (induction u) (auto split: if_splits)

lemma IndexRune_Some:
  "IndexRune u r = Some i \<Longrightarrow> u = take i u @ r # drop (Suc i) u \<and> r \<notin> set (take i u)"
proof (induction u arbitrary: i)
  case Nil
  then show ?case by simp
next
  case (Cons c cs)
  show ?case
  proof (cases "c = r")
    case True
    with Cons.prems show ?thesis by simp
  next
    case False
    with Cons.prems obtain j where j: "IndexRune cs r = Some j" "i = Suc j"
      by auto
    from Cons.IH[OF j(1)] False j(2) show ?thesis by auto
  qed
qed

lemma next_component_cases:
  assumes "next_component u = (p, rest)"
  shows "CHR ''/'' \<notin> set p \<and> ((u = p \<and> rest = []) \<or> u = p @ CHR ''/'' # rest)"
proof (cases "IndexRune u Separator")
  case None
  with assms IndexRune_None[OF None] show ?thesis
    by (simp add: next_component_def Separator_def)
next
  case (Some i)
  with assms IndexRune_Some[OF Some] show ?thesis
    by (auto simp: next_component_def Separator_def)
qed

lemma clean_elem_nonempty:
  "\<forall>e\<in>set out. e \<noteq> [] \<Longrightarrow> \<forall>e\<in>set (clean_elem r out x). e \<noteq> []"
  by (auto simp: clean_elem_def dest: in_set_butlastD)

lemma foldl_clean_elem_nonempty:
  "\<forall>e\<in>set out. e \<noteq> [] \<Longrightarrow> \<forall>e\<in>set (foldl (clean_elem r) out es). e \<noteq> []"
proof (induction es arbitrary: out)
  case Nil
  then show ?case by simp
next
  case (Cons x es)
  from Cons.IH[OF clean_elem_nonempty[OF Cons.prems]] show ?case by simp
qed

lemma join_elems_Nil: "\<forall>e\<in>set out. e \<noteq> [] \<Longrightarrow> join_elems out = [] \<Longrightarrow> out = []"
  by (induction out rule: join_elems.induct) auto

lemma Clean_rooted:
  "Clean (CHR ''/'' # x) = CHR ''/'' # join_elems (foldl (clean_elem True) [] (elements x))"
  by (simp add: Clean_def)

lemma Clean_rooted_is_root:
  "Clean (Separator # x) = [Separator] \<longleftrightarrow> foldl (clean_elem True) [] (elements x) = []"
proof
  assume "Clean (Separator # x) = [Separator]"
  then have "join_elems (foldl (clean_elem True) [] (elements x)) = []"
    by (simp add: Separator_def Clean_rooted)
  moreover have "\<forall>e\<in>set (foldl (clean_elem True) [] (elements x)). e \<noteq> []"
    by (rule foldl_clean_elem_nonempty) simp
  ultimately show "foldl (clean_elem True) [] (elements x) = []"
    by (rule join_elems_Nil[rotated])
next
  assume "foldl (clean_elem True) [] (elements x) = []"
  then show "Clean (Separator # x) = [Separator]"
    by (simp add: Separator_def Clean_rooted)
qed

lemma Clean_rooted_collapse:
  assumes "Clean (Separator # a) = [Separator]"
  shows "Clean (Separator # a @ Separator # b) = Clean (Separator # b)"
  using assms[unfolded Clean_rooted_is_root]
  by (simp add: Separator_def Clean_rooted elements_append_sep)

lemma clean_elem_empty [simp]: "clean_elem r out [] = out"
  by (simp add: clean_elem_def)

lemma Clean_rooted_trailing_sep:
  "Clean (Separator # a @ [Separator]) = Clean (Separator # a)"
  by (simp add: Separator_def Clean_rooted elements_append_sep)

section \<open>Paths without symlinks\<close>

lemma reach_after_step:
  assumes "step root vfs v = Continue v'" and "reach root vfs v' w"
  shows "reach root vfs v w"
  using assms(2)
proof (induction rule: reach.induct)
  case reach_refl
  show ?case by (rule reach.reach_step[OF reach.reach_refl assms(1)])
next
  case (reach_step w w')
  then show ?case by (blast intro: reach.reach_step)
qed

lemma no_links_met_step:
  "no_links_met root vfs v \<Longrightarrow> step root vfs v = Continue v' \<Longrightarrow> no_links_met root vfs v'"
  unfolding no_links_met_def by (blast intro: reach_after_step)

lemma no_links_run:
  assumes "no_links_met root vfs v" and "n v \<le> 255"
  shows "fst (SecureJoinVFS_loop root vfs v)
    = Inr (Clean (root @ Clean (Separator # path v @ unsafePath v)))"
  using assms
proof (induction root vfs v rule: SecureJoinVFS_loop.induct)
  case (1 root vfs v)
  show ?case
  proof (cases "unsafePath v = []")
    case True
    then have "step root vfs v
        = Return (Inr (Clean (root @ Clean (Separator # path v)))) (vfs_state v)"
      by (simp add: step_def)
    from loop_Return[OF this] True show ?thesis by simp
  next
    case False
    obtain p rest where nc: "next_component (unsafePath v) = (p, rest)"
      by (cases "next_component (unsafePath v)")
    from next_component_cases[OF nc]
    have shape: "(unsafePath v = p \<and> rest = []) \<or> unsafePath v = p @ CHR ''/'' # rest"
      by simp
    show ?thesis
    proof (cases "Clean (Separator # path v @ p) = [Separator]")
      case True
      let ?v' = "v\<lparr>path := [], unsafePath := rest\<rparr>"
      have st: "step root vfs v = Continue ?v'"
        by (rule step_clamp[OF False "1.prems"(2) nc True])
      have "fst (SecureJoinVFS_loop root vfs ?v')
          = Inr (Clean (root @ Clean (Separator # path ?v' @ unsafePath ?v')))"
        by (rule "1.IH"[OF st no_links_met_step[OF "1.prems"(1) st]]) (simp add: "1.prems")
      moreover have "Clean (Separator # rest) = Clean (Separator # path v @ unsafePath v)"
        using shape
      proof
        assume "unsafePath v = p \<and> rest = []"
        with True show ?thesis by (simp add: Separator_def Clean_rooted)
      next
        assume "unsafePath v = p @ CHR ''/'' # rest"
        with Clean_rooted_collapse[OF True, of rest] show ?thesis
          by (simp add: Separator_def)
      qed
      ultimately show ?thesis
        by (simp add: loop_Continue[OF st])
    next
      case notroot: False
      let ?fullP = "Clean (root @ Clean (Separator # path v @ p))"
      let ?v' = "v\<lparr>path := path v @ p @ [Separator], unsafePath := rest,
        vfs_state := snd (Lstat vfs ?fullP (vfs_state v))\<rparr>"
      have ex: "examined root v = Some ?fullP"
        using False "1.prems"(2) nc notroot by (simp add: examined_def)
      have nl: "not_a_link (fst (Lstat vfs ?fullP (vfs_state v)))"
        using "1.prems"(1) ex reach_refl[of root vfs v] unfolding no_links_met_def by blast
      have st: "step root vfs v = Continue ?v'"
        using step_Lstat[OF False "1.prems"(2) nc notroot surjective_pairing] nl
        by (auto simp: not_a_link_def split: sum.splits)
      have "fst (SecureJoinVFS_loop root vfs ?v')
          = Inr (Clean (root @ Clean (Separator # path ?v' @ unsafePath ?v')))"
        by (rule "1.IH"[OF st no_links_met_step[OF "1.prems"(1) st]]) (simp add: "1.prems")
      moreover have "Clean (Separator # (path v @ p @ [Separator]) @ rest)
          = Clean (Separator # path v @ unsafePath v)"
        using shape
      proof
        assume "unsafePath v = p \<and> rest = []"
        with Clean_rooted_trailing_sep[of "path v @ p"] show ?thesis by simp
      next
        assume "unsafePath v = p @ CHR ''/'' # rest"
        then show ?thesis by (simp add: Separator_def)
      qed
      ultimately show ?thesis
        by (simp add: loop_Continue[OF st])
    qed
  qed
qed

text \<open>
  Claim C2, amended. Let every entry that the run examines be answered by \<open>Lstat\<close> with
  an error of the not-found class or described as not a symlink. Then the resolver
  succeeds, and its result is the cleaned concatenation of \<open>root\<close> with \<open>untrustedPath\<close>
  cleaned as a path that starts at the separator, so that leading \<open>..\<close> elements are
  dropped rather than applied to \<open>root\<close>.
\<close>

theorem no_symlinks_lexical:
  assumes "no_links_met root vfs \<lparr>path = [], n = 0, unsafePath = unsafePath0, vfs_state = s\<rparr>"
  shows "fst (SecureJoinVFS root unsafePath0 vfs s)
    = Inr (Clean (root @ Clean (Separator # unsafePath0)))"
  using no_links_run[OF assms] by (simp add: SecureJoinVFS_def)

theorem no_symlinks_lexical_witness:
  "no_links_met ''/safe'' empty_fs \<lparr>path = [], n = 0, unsafePath = ''a/../../x'', vfs_state = ()\<rparr>
   \<and> fst (SecureJoinVFS ''/safe'' ''a/../../x'' empty_fs ()) = Inr ''/safe/x''"
proof -
  have h: "no_links_met ''/safe'' empty_fs
      \<lparr>path = [], n = 0, unsafePath = ''a/../../x'', vfs_state = ()\<rparr>"
    by (simp add: no_links_met_def not_a_link_def fs_simps)
  from no_symlinks_lexical[OF h] h show ?thesis
    by (simp add: lex_simps)
qed

text \<open>
  The claim as stated fails in two ways. With no symlink anywhere, \<open>../x\<close> under
  \<open>/safe\<close> resolves to \<open>/safe/x\<close>, while the lexical join of \<open>/safe\<close> with the cleaned
  path \<open>../x\<close> is \<open>/x\<close>. And when \<open>Lstat\<close> fails with \<open>EACCES\<close>, no entry is a symlink
  and yet the resolver fails.
\<close>

theorem no_symlinks_lexical_counterexample:
  "SecureJoinVFS ''/safe'' ''../x'' empty_fs () = (Inr ''/safe/x'', ())
   \<and> Join ''/safe'' (Clean ''../x'') = ''/x''
   \<and> SecureJoinVFS ''/safe'' ''x'' denied_fs ()
       = (Inl (PathError ''lstat'' ''/safe/x'' (Errno EACCES)), ())"
proof -
  let ?v = "\<lambda>pa u. \<lparr>path = pa, n = 0, unsafePath = u, vfs_state = ()\<rparr>"
  have a: "step ''/safe'' empty_fs (?v [] ''../x'') = Continue (?v [] ''x'')"
    by (simp add: step_def lex_simps)
  have b: "step ''/safe'' empty_fs (?v [] ''x'') = Continue (?v ''x/'' [])"
    by (simp add: step_def lex_simps fs_simps)
  have c: "step ''/safe'' empty_fs (?v ''x/'' []) = Return (Inr ''/safe/x'') ()"
    by (simp add: step_def lex_simps)
  have d: "step ''/safe'' denied_fs (?v [] ''x'')
      = Return (Inl (PathError ''lstat'' ''/safe/x'' (Errno EACCES))) ()"
    by (simp add: step_def lex_simps fs_simps)
  have "Join ''/safe'' (Clean ''../x'') = ''/x''"
    by (simp add: Join_def lex_simps)
  then show ?thesis
    by (simp add: SecureJoinVFS_def loop_Continue[OF a] loop_Continue[OF b]
        loop_Return[OF c] loop_Return[OF d])
qed

section \<open>Cleaning a cleaned path\<close>

lemma elements_sep_free: "\<forall>e\<in>set (elements u). CHR ''/'' \<notin> set e"
  by (induction u) (auto split: list.splits)

lemma canon_clean_elem:
  assumes "canon r out" and "CHR ''/'' \<notin> set e"
  shows "canon r (clean_elem r out e)"
proof -
  from assms(1) obtain j rs where out: "out = replicate j ''..'' @ rs"
    and r: "r \<longrightarrow> j = 0" and rs: "\<forall>x\<in>set rs. real_elem x"
    unfolding canon_def by blast
  consider "e = [] \<or> e = ''.''" | "e = ''..''" | "real_elem e"
    using assms(2) by (auto simp: real_elem_def)
  then show ?thesis
  proof cases
    case 1
    with assms(1) show ?thesis by (auto simp: clean_elem_def)
  next
    case 2
    show ?thesis
    proof (cases "rs = []")
      case True
      have "canon r (replicate j ''..'')"
        using r unfolding canon_def by (intro exI[of _ j] exI[of _ "[]"]) simp
      moreover have "\<not> r \<Longrightarrow> canon r (replicate (Suc j) ''..'')"
        unfolding canon_def by (intro exI[of _ "Suc j"] exI[of _ "[]"]) simp
      moreover have "replicate j ''..'' @ [''..''] = replicate (Suc j) ''..''"
        by (simp add: replicate_append_same)
      ultimately show ?thesis
        using 2 True out by (cases j) (auto simp: clean_elem_def simp del: replicate_Suc)
    next
      case False
      then obtain rs' x where snoc: "rs = rs' @ [x]"
        by (cases rs rule: rev_cases) auto
      with rs have "x \<noteq> ''..''" by (auto simp: real_elem_def)
      with snoc out 2 have "clean_elem r out e = replicate j ''..'' @ rs'"
        by (simp add: clean_elem_def butlast_append)
      with r rs snoc show ?thesis
        unfolding canon_def by (intro exI[of _ j] exI[of _ rs']) simp
    qed
  next
    case 3
    then have "clean_elem r out e = replicate j ''..'' @ (rs @ [e])"
      using out by (auto simp: clean_elem_def real_elem_def)
    with r rs 3 show ?thesis
      unfolding canon_def by (intro exI[of _ j] exI[of _ "rs @ [e]"]) simp
  qed
qed

lemma canon_foldl:
  "canon r out \<Longrightarrow> \<forall>e\<in>set es. CHR ''/'' \<notin> set e \<Longrightarrow> canon r (foldl (clean_elem r) out es)"
  by (induction es arbitrary: out) (auto intro: canon_clean_elem)

lemma canon_Nil: "canon r []"
  unfolding canon_def by (intro exI[of _ 0] exI[of _ "[]"]) simp

lemma canon_elements: "canon r (foldl (clean_elem r) [] (elements u))"
  by (rule canon_foldl[OF canon_Nil elements_sep_free])

lemma canon_snoc:
  assumes "canon r (st @ [e])"
  shows "canon r st \<and> clean_elem r st e = st @ [e]"
proof -
  from assms obtain j rs where st: "st @ [e] = replicate j ''..'' @ rs"
    and r: "r \<longrightarrow> j = 0" and rs: "\<forall>x\<in>set rs. real_elem x"
    unfolding canon_def by blast
  show ?thesis
  proof (cases rs rule: rev_cases)
    case Nil
    with st have "st @ [e] = replicate j ''..''" by simp
    then obtain i where j: "j = Suc i"
      by (cases j) auto
    with \<open>st @ [e] = replicate j ''..''\<close> have "st @ [e] = replicate i ''..'' @ [''..'']"
      by (simp add: replicate_append_same)
    then have ste: "st = replicate i ''..''" "e = ''..''" by auto
    from r j have nr: "\<not> r" by simp
    have "canon r st"
      unfolding canon_def ste using nr by (intro exI[of _ i] exI[of _ "[]"]) simp
    moreover have "clean_elem r st e = st @ [e]"
      using ste nr by (cases i) (auto simp: clean_elem_def)
    ultimately show ?thesis ..
  next
    case (snoc rs' x)
    with st have ste: "st = replicate j ''..'' @ rs'" "e = x" by auto
    with rs snoc have re: "real_elem e" by simp
    have "canon r st"
      unfolding canon_def using ste r rs snoc by (intro exI[of _ j] exI[of _ rs']) simp
    moreover have "clean_elem r st e = st @ [e]"
      using re by (auto simp: clean_elem_def real_elem_def)
    ultimately show ?thesis ..
  qed
qed

lemma foldl_canon: "canon r st \<Longrightarrow> foldl (clean_elem r) [] st = st"
proof (induction st rule: rev_induct)
  case Nil
  show ?case by simp
next
  case (snoc e st)
  from canon_snoc[OF snoc.prems] snoc.IH show ?case by simp
qed

lemma canon_sep_free:
  assumes "canon r st"
  shows "\<forall>e\<in>set st. e \<noteq> [] \<and> CHR ''/'' \<notin> set e"
proof
  fix e
  assume e: "e \<in> set st"
  from assms obtain j rs where st: "st = replicate j ''..'' @ rs"
    and rs: "\<forall>x\<in>set rs. real_elem x"
    unfolding canon_def by blast
  from e st have "e = ''..'' \<or> e \<in> set rs"
    by auto
  then show "e \<noteq> [] \<and> CHR ''/'' \<notin> set e"
  proof
    assume "e = ''..''"
    then show ?thesis by simp
  next
    assume "e \<in> set rs"
    with rs show ?thesis by (simp add: real_elem_def)
  qed
qed

lemma elements_join_elems:
  "st \<noteq> [] \<Longrightarrow> \<forall>e\<in>set st. CHR ''/'' \<notin> set e \<Longrightarrow> elements (join_elems st) = st"
proof (induction st rule: join_elems.induct)
  case 1
  then show ?case by simp
next
  case (2 e)
  then show ?case by (simp add: elements_no_sep)
next
  case (3 e e' es)
  then show ?case by (simp add: elements_append_sep elements_no_sep)
qed

lemma join_elems_hd:
  "st \<noteq> [] \<Longrightarrow> \<forall>e\<in>set st. e \<noteq> [] \<and> CHR ''/'' \<notin> set e \<Longrightarrow>
   join_elems st \<noteq> [] \<and> hd (join_elems st) \<noteq> CHR ''/''"
proof (induction st rule: join_elems.induct)
  case 1
  then show ?case by simp
next
  case (2 e)
  then show ?case by (cases e) auto
next
  case (3 e e' es)
  then show ?case by (cases e) auto
qed

lemma Clean_not_Nil: "Clean x \<noteq> []"
proof (cases x)
  case Nil
  then show ?thesis by (simp add: Clean_def)
next
  case (Cons c cs)
  show ?thesis
  proof (cases "c = CHR ''/''")
    case True
    with Cons show ?thesis by (simp add: Clean_def)
  next
    case False
    let ?st = "foldl (clean_elem False) [] (elements x)"
    show ?thesis
    proof (cases "?st = []")
      case True
      with Cons False show ?thesis by (simp add: Clean_def)
    next
      case ne: False
      from join_elems_hd[OF ne canon_sep_free[OF canon_elements]] Cons False ne
      show ?thesis by (auto simp: Clean_def split: list.splits)
    qed
  qed
qed

lemma Clean_idem: "Clean (Clean x) = Clean x"
proof -
  have dot: "Clean ''.'' = ''.''"
    by (simp add: Clean_def clean_elem_def)
  show ?thesis
  proof (cases x)
    case Nil
    with dot show ?thesis by (simp add: Clean_def)
  next
    case (Cons c cs)
    show ?thesis
    proof (cases "c = CHR ''/''")
      case True
      let ?st = "foldl (clean_elem True) [] (elements cs)"
      have cl: "Clean x = CHR ''/'' # join_elems ?st"
        using Cons True by (simp add: Clean_def)
      show ?thesis
      proof (cases "?st = []")
        case True
        with cl show ?thesis by (simp add: Clean_def)
      next
        case False
        from elements_join_elems[OF False] canon_sep_free[OF canon_elements, of True cs]
        have "elements (join_elems ?st) = ?st" by simp
        with foldl_canon[OF canon_elements, of True cs] cl show ?thesis
          by (simp add: Clean_rooted)
      qed
    next
      case False
      let ?st = "foldl (clean_elem False) [] (elements x)"
      show ?thesis
      proof (cases "?st = []")
        case True
        with Cons False dot show ?thesis by (simp add: Clean_def)
      next
        case ne: False
        have cl: "Clean x = join_elems ?st"
          using Cons False ne by (auto simp: Clean_def split: list.splits)
        from join_elems_hd[OF ne canon_sep_free[OF canon_elements]]
        obtain d ds where j: "join_elems ?st = d # ds" "d \<noteq> CHR ''/''"
          by (cases "join_elems ?st") auto
        from elements_join_elems[OF ne] canon_sep_free[OF canon_elements, of False x]
        have "elements (join_elems ?st) = ?st" by simp
        with foldl_canon[OF canon_elements, of False x] j ne
        have "Clean (join_elems ?st) = join_elems ?st"
          by (auto simp: Clean_def split: list.splits)
        with cl show ?thesis by simp
      qed
    qed
  qed
qed

lemma elements_trailing_sep: "elements (y @ [CHR ''/'']) = elements y @ [[]]"
  using elements_append_sep[of y "[]"] by simp

lemma Clean_trailing_sep:
  assumes "x \<noteq> []"
  shows "Clean (x @ [CHR ''/'']) = Clean x"
proof -
  obtain c cs where x: "x = c # cs"
    using assms by (cases x) auto
  have el: "elements (c # cs @ [CHR ''/'']) = elements (c # cs) @ [[]]"
    using elements_trailing_sep[of "c # cs"] by (simp del: elements.simps)
  show ?thesis
  proof (cases "c = CHR ''/''")
    case True
    then show ?thesis
      by (simp add: x Clean_def elements_trailing_sep)
  next
    case False
    then show ?thesis
      unfolding x by (simp add: Clean_def el del: elements.simps)
  qed
qed

section \<open>The empty path\<close>

lemma SecureJoinVFS_empty:
  "SecureJoinVFS root [] vfs s = (Inr (Clean (root @ [CHR ''/''])), s)"
proof -
  have "step root vfs \<lparr>path = [], n = 0, unsafePath = [], vfs_state = s\<rparr>
      = Return (Inr (Clean (root @ [CHR ''/'']))) s"
    by (simp add: step_def Separator_def Clean_rooted)
  from loop_Return[OF this] show ?thesis
    by (simp add: SecureJoinVFS_def)
qed

lemma result_is_clean:
  "SecureJoinVFS_loop root vfs v = (Inr r, s1) \<Longrightarrow> \<exists>x. r = Clean x"
proof (induction root vfs v rule: SecureJoinVFS_loop.induct)
  case (1 root vfs v)
  show ?case
  proof (cases "step root vfs v")
    case (Return res s)
    with "1.prems" have "step root vfs v = Return (Inr r) s1"
      by (simp add: loop_Return)
    then show ?thesis
      by (auto simp: step_def Let_def split: if_splits prod.splits sum.splits)
  next
    case (Continue v')
    with "1.prems" have "SecureJoinVFS_loop root vfs v' = (Inr r, s1)"
      by (simp add: loop_Continue)
    from "1.IH"[OF Continue this] show ?thesis .
  qed
qed

text \<open>
  Claim C9, amended. For every non-empty root and every capability, resolving the empty
  path returns the cleaned root and leaves the state of the capability as it was; a
  capability that counts its calls counts none. For every root, the result of a
  successful call, resolved again with the empty path against any capability, is
  returned unchanged.
\<close>

theorem empty_path_idempotent:
  "(root \<noteq> [] \<longrightarrow>
      SecureJoinVFS root [] vfs s = (Inr (Clean root), s)
      \<and> SecureJoinVFS root [] (counting vfs) (s, 0, 0) = (Inr (Clean root), (s, 0, 0)))
   \<and> (\<forall>unsafePath0 r s1 s'. SecureJoinVFS root unsafePath0 vfs s = (Inr r, s1) \<longrightarrow>
         SecureJoinVFS r [] vfs' s' = (Inr r, s'))"
proof -
  have "SecureJoinVFS r [] vfs' s' = (Inr r, s')"
    if "SecureJoinVFS root unsafePath0 vfs s = (Inr r, s1)" for unsafePath0 r s1 s'
  proof -
    from that obtain x where r: "r = Clean x"
      unfolding SecureJoinVFS_def by (blast dest: result_is_clean)
    then have "Clean (r @ [CHR ''/'']) = r"
      by (simp add: Clean_trailing_sep Clean_not_Nil Clean_idem)
    then show ?thesis
      by (simp add: SecureJoinVFS_empty)
  qed
  then show ?thesis
    by (simp add: SecureJoinVFS_empty Clean_trailing_sep)
qed

theorem empty_path_idempotent_witness:
  "SecureJoinVFS ''/safe//dir/'' [] empty_fs () = (Inr ''/safe/dir'', ())
   \<and> SecureJoinVFS ''/safe//dir/'' [] (counting empty_fs) ((), 0, 0)
       = (Inr ''/safe/dir'', ((), 0, 0))
   \<and> SecureJoinVFS ''/safe'' ''a/../../x'' empty_fs () = (Inr ''/safe/x'', ())
   \<and> SecureJoinVFS ''/safe/x'' [] denied_fs () = (Inr ''/safe/x'', ())"
proof -
  let ?v = "\<lambda>pa u. \<lparr>path = pa, n = 0, unsafePath = u, vfs_state = ()\<rparr>"
  have a: "step ''/safe'' empty_fs (?v [] ''a/../../x'') = Continue (?v ''a/'' ''../../x'')"
    by (simp add: step_def lex_simps fs_simps)
  have b: "step ''/safe'' empty_fs (?v ''a/'' ''../../x'') = Continue (?v [] ''../x'')"
    by (simp add: step_def lex_simps)
  have c: "step ''/safe'' empty_fs (?v [] ''../x'') = Continue (?v [] ''x'')"
    by (simp add: step_def lex_simps)
  have d: "step ''/safe'' empty_fs (?v [] ''x'') = Continue (?v ''x/'' [])"
    by (simp add: step_def lex_simps fs_simps)
  have e: "step ''/safe'' empty_fs (?v ''x/'' []) = Return (Inr ''/safe/x'') ()"
    by (simp add: step_def lex_simps)
  have run: "SecureJoinVFS ''/safe'' ''a/../../x'' empty_fs () = (Inr ''/safe/x'', ())"
    by (simp add: SecureJoinVFS_def loop_Continue[OF a] loop_Continue[OF b]
        loop_Continue[OF c] loop_Continue[OF d] loop_Return[OF e])
  have cl: "Clean ''/safe//dir/'' = ''/safe/dir''"
    by (simp add: lex_simps)
  from empty_path_idempotent[of "''/safe//dir/''" empty_fs "()" denied_fs] cl
  have "SecureJoinVFS ''/safe//dir/'' [] empty_fs () = (Inr ''/safe/dir'', ())"
    and "SecureJoinVFS ''/safe//dir/'' [] (counting empty_fs) ((), 0, 0)
       = (Inr ''/safe/dir'', ((), 0, 0))"
    by simp_all
  moreover from empty_path_idempotent[of "''/safe''" empty_fs "()" denied_fs] run
  have "SecureJoinVFS ''/safe/x'' [] denied_fs () = (Inr ''/safe/x'', ())"
    by blast
  ultimately show ?thesis
    using run by simp
qed

text \<open>
  The claim as stated fails for the empty root: the resolver returns \<open>/\<close>, while the
  cleaned empty path is \<open>.\<close>.
\<close>

theorem empty_path_idempotent_counterexample:
  "SecureJoinVFS [] [] empty_fs () = (Inr ''/'', ()) \<and> Clean [] = ''.''"
  by (simp add: SecureJoinVFS_empty lex_simps)

section \<open>Chains of symlinks\<close>

lemma IndexRune_first: "r \<notin> set p \<Longrightarrow> IndexRune (p @ r # rest) r = Some (length p)"
  by (induction p) auto

lemma next_component_sep:
  "CHR ''/'' \<notin> set p \<Longrightarrow> next_component (p @ CHR ''/'' # rest) = (p, rest)"
  by (simp add: next_component_def Separator_def IndexRune_first)

lemma real_elem_as: "1 \<le> k \<Longrightarrow> real_elem (replicate k CHR ''a'')"
  by (cases k) (auto simp: real_elem_def)

lemma clean_elem_real: "real_elem e \<Longrightarrow> clean_elem r out e = out @ [e]"
  by (auto simp: clean_elem_def real_elem_def)

lemma Clean_as:
  assumes "1 \<le> k"
  shows "Clean (CHR ''/'' # replicate k CHR ''a'') = CHR ''/'' # replicate k CHR ''a''"
proof -
  have "elements (replicate k CHR ''a'') = [replicate k CHR ''a'']"
    by (rule elements_no_sep) simp
  moreover have "clean_elem True [] (replicate k CHR ''a'') = [replicate k CHR ''a'']"
    using clean_elem_real[OF real_elem_as[OF assms], of True "[]"] by simp
  ultimately show ?thesis
    by (simp add: Clean_rooted)
qed

lemma Clean_safe_as:
  assumes "1 \<le> k"
  shows "Clean (''/safe'' @ CHR ''/'' # replicate k CHR ''a'') = ''/safe/'' @ replicate k CHR ''a''"
proof -
  have "elements (''safe'' @ CHR ''/'' # replicate k CHR ''a'') = [''safe'', replicate k CHR ''a'']"
    unfolding elements_append_sep by (simp add: elements_no_sep)
  moreover have "clean_elem True [''safe''] (replicate k CHR ''a'')
      = [''safe'', replicate k CHR ''a'']"
    using clean_elem_real[OF real_elem_as[OF assms], of True "[''safe'']"] by simp
  moreover have "clean_elem True [] ''safe'' = [''safe'']"
    by (simp add: clean_elem_def)
  ultimately have "foldl (clean_elem True) []
      (elements (''safe'' @ CHR ''/'' # replicate k CHR ''a'')) = [''safe'', replicate k CHR ''a'']"
    by simp
  then have "Clean (CHR ''/'' # ''safe'' @ CHR ''/'' # replicate k CHR ''a'')
      = CHR ''/'' # ''safe'' @ CHR ''/'' # replicate k CHR ''a''"
    unfolding Clean_rooted by simp
  then show ?thesis by simp
qed

lemma chain_index_as:
  "1 \<le> k \<Longrightarrow> chain_index (''/safe/'' @ replicate k CHR ''a'') = Some k"
  by (simp add: chain_index_def)

lemma chain_Lstat_any:
  "Lstat (counting (chain_fs m final)) name ((), l, c)
     = (case chain_index name of
          None \<Rightarrow> Inl (PathError ''lstat'' name (Errno ENOENT))
        | Some k \<Rightarrow>
            if k \<le> m then Inr link_info
            else if k = m + 1 then Inr file_info
            else Inl (PathError ''lstat'' name (Errno ENOENT)),
        ((), Suc l, c))"
  by (simp add: counting_def chain_fs_def)

lemma chain_Readlink_any:
  "Readlink (counting (chain_fs m final)) name ((), l, c)
     = (case chain_index name of
          None \<Rightarrow> Inl (PathError ''readlink'' name (Errno EINVAL))
        | Some k \<Rightarrow>
            if k < m then Inr (replicate (k + 1) CHR ''a'')
            else if k = m then Inr final
            else Inl (PathError ''readlink'' name (Errno EINVAL)),
        ((), l, Suc c))"
  by (simp add: counting_def chain_fs_def)

lemma chain_Lstat:
  assumes "1 \<le> k"
  shows "Lstat (counting (chain_fs m final)) (''/safe/'' @ replicate k CHR ''a'') ((), l, c)
     = (if k \<le> m then Inr link_info
        else if k = m + 1 then Inr file_info
        else Inl (PathError ''lstat'' (''/safe/'' @ replicate k CHR ''a'') (Errno ENOENT)),
        ((), Suc l, c))"
  by (simp only: chain_Lstat_any chain_index_as[OF assms] option.case)

lemma chain_Readlink:
  assumes "1 \<le> k"
  shows "Readlink (counting (chain_fs m final)) (''/safe/'' @ replicate k CHR ''a'') ((), l, c)
     = (if k < m then Inr (replicate (k + 1) CHR ''a'')
        else if k = m then Inr final
        else Inl (PathError ''readlink'' (''/safe/'' @ replicate k CHR ''a'') (Errno EINVAL)),
        ((), l, Suc c))"
  by (simp only: chain_Readlink_any chain_index_as[OF assms] option.case)

lemma link_info_symlink: "Mode link_info AND ModeSymlink \<noteq> 0" "\<not> IsDir link_info"
  by (simp_all add: link_info_def ModeSymlink_def)

lemma chain_step_link:
  assumes "1 \<le> k" and "k \<le> m" and "i \<le> 255"
  shows "step ''/safe'' (counting (chain_fs m final)) (chain_vars k i l c)
    = (let dest = (if k < m then replicate (k + 1) CHR ''a'' else final) in
       if IsAbs dest then
         (if HasPrefix dest ''/safe/'' then Return (Inr (Clean dest)) ((), Suc l, Suc c)
          else Continue \<lparr>path = [], n = i + 1, unsafePath = dest @ ''/'',
            vfs_state = ((), Suc l, Suc c)\<rparr>)
       else Continue \<lparr>path = [], n = i + 1, unsafePath = dest @ ''/'',
         vfs_state = ((), Suc l, Suc c)\<rparr>)"
proof -
  let ?v = "chain_vars k i l c"
  have nc: "next_component (unsafePath ?v) = (replicate k CHR ''a'', [])"
    using next_component_sep[of "replicate k CHR ''a''" "[]"] by simp
  have cp: "Clean (Separator # path ?v @ replicate k CHR ''a'') = CHR ''/'' # replicate k CHR ''a''"
    using Clean_as[OF assms(1)] by (simp add: Separator_def)
  have fp: "Clean (''/safe'' @ Clean (Separator # path ?v @ replicate k CHR ''a''))
      = ''/safe/'' @ replicate k CHR ''a''"
    unfolding cp by (rule Clean_safe_as[OF assms(1)])
  have ne: "Clean (Separator # path ?v @ replicate k CHR ''a'') \<noteq> [Separator]"
    unfolding cp using assms(1) by (cases k) (auto simp: Separator_def)
  have ls: "Lstat (counting (chain_fs m final))
      (Clean (''/safe'' @ Clean (Separator # path ?v @ replicate k CHR ''a''))) (vfs_state ?v)
      = (Inr link_info, ((), Suc l, c))"
    unfolding fp using chain_Lstat[OF assms(1), of m final l c] assms(2) by simp
  have rl: "Readlink (counting (chain_fs m final))
      (Clean (''/safe'' @ Clean (Separator # path ?v @ replicate k CHR ''a''))) ((), Suc l, c)
      = (Inr (if k < m then replicate (k + 1) CHR ''a'' else final), ((), Suc l, Suc c))"
    unfolding fp using chain_Readlink[OF assms(1), of m final "Suc l" c] assms(2) by simp
  have u: "unsafePath ?v \<noteq> []" by simp
  have i: "n ?v \<le> 255" using assms(3) by simp
  show ?thesis
    using step_Lstat[OF u i nc ne ls] link_info_symlink rl
    by (simp add: Let_def Separator_def)
qed

lemma chain_step_next:
  assumes "1 \<le> k" and "k < m" and "i \<le> 255"
  shows "step ''/safe'' (counting (chain_fs m final)) (chain_vars k i l c)
    = Continue (chain_vars (k + 1) (i + 1) (Suc l) (Suc c))"
proof -
  have "\<not> IsAbs (replicate (k + 1) CHR ''a'')"
    by (simp add: IsAbs_def HasPrefix_def Separator_def)
  with chain_step_link[OF assms(1) less_imp_le[OF assms(2)] assms(3), of final l c] assms(2)
  show ?thesis by (simp add: Let_def del: replicate_Suc)
qed

lemma chain_run:
  assumes "1 \<le> k" and "k + d \<le> m" and "i + d \<le> 256"
  shows "SecureJoinVFS_loop ''/safe'' (counting (chain_fs m final)) (chain_vars k i l c)
    = SecureJoinVFS_loop ''/safe'' (counting (chain_fs m final))
        (chain_vars (k + d) (i + d) (l + d) (c + d))"
  using assms
proof (induction d)
  case 0
  show ?case by simp
next
  case (Suc d)
  have "SecureJoinVFS_loop ''/safe'' (counting (chain_fs m final)) (chain_vars k i l c)
    = SecureJoinVFS_loop ''/safe'' (counting (chain_fs m final))
        (chain_vars (k + d) (i + d) (l + d) (c + d))"
    using Suc by simp
  also have "\<dots> = SecureJoinVFS_loop ''/safe'' (counting (chain_fs m final))
        (chain_vars (k + d + 1) (i + d + 1) (Suc (l + d)) (Suc (c + d)))"
    by (rule loop_Continue, rule chain_step_next) (use Suc.prems in simp_all)
  finally show ?case by (simp del: replicate_Suc)
qed

lemma chain_start:
  assumes "2 \<le> m" and "m \<le> 256"
  shows "SecureJoinVFS ''/safe'' ''a'' (counting (chain_fs m final)) ((), 0, 0)
    = SecureJoinVFS_loop ''/safe'' (counting (chain_fs m final))
        (chain_vars m (m - 1) (m - 1) (m - 1))"
proof -
  let ?fs = "counting (chain_fs m final)"
  let ?v0 = "\<lparr>path = [], n = 0, unsafePath = ''a'', vfs_state = ((), 0 :: nat, 0 :: nat)\<rparr>"
  have nc: "next_component (unsafePath ?v0) = (''a'', [])"
    by (simp add: lex_simps)
  have cp: "Clean (Separator # path ?v0 @ ''a'') = ''/a''"
    by (simp add: lex_simps)
  have fp: "Clean (''/safe'' @ Clean (Separator # path ?v0 @ ''a'')) = ''/safe/a''"
    unfolding cp by (simp add: lex_simps)
  have ls: "Lstat ?fs (Clean (''/safe'' @ Clean (Separator # path ?v0 @ ''a''))) (vfs_state ?v0)
      = (Inr link_info, ((), Suc 0, 0))"
    unfolding fp using chain_Lstat[of "Suc 0" m final 0 0] assms by simp
  have rl: "Readlink ?fs (Clean (''/safe'' @ Clean (Separator # path ?v0 @ ''a''))) ((), Suc 0, 0)
      = (Inr ''aa'', ((), Suc 0, Suc 0))"
    unfolding fp using chain_Readlink[of "Suc 0" m final "Suc 0" 0] assms by simp
  have ne: "Clean (Separator # path ?v0 @ ''a'') \<noteq> [Separator]"
    unfolding cp by (simp add: Separator_def)
  have "step ''/safe'' ?fs ?v0 = Continue (chain_vars (Suc (Suc 0)) (Suc 0) (Suc 0) (Suc 0))"
    using step_Lstat[OF _ _ nc ne ls] link_info_symlink rl
    by (simp add: IsAbs_def HasPrefix_def Separator_def)
  then have "SecureJoinVFS ''/safe'' ''a'' ?fs ((), 0, 0)
      = SecureJoinVFS_loop ''/safe'' ?fs (chain_vars (Suc (Suc 0)) (Suc 0) (Suc 0) (Suc 0))"
    by (simp add: SecureJoinVFS_def loop_Continue)
  also have "\<dots> = SecureJoinVFS_loop ''/safe'' ?fs
      (chain_vars (Suc (Suc 0) + (m - 2)) (Suc 0 + (m - 2)) (Suc 0 + (m - 2)) (Suc 0 + (m - 2)))"
    by (rule chain_run) (use assms in simp_all)
  also have "\<dots> = SecureJoinVFS_loop ''/safe'' ?fs (chain_vars m (m - 1) (m - 1) (m - 1))"
    using assms by (simp del: replicate_Suc add: Suc_diff_Suc numeral_2_eq_2)
  finally show ?thesis .
qed

lemma chain_step_file:
  assumes "1 \<le> k" and "k = m + 1" and "i \<le> 255"
  shows "step ''/safe'' (counting (chain_fs m final)) (chain_vars k i l c)
    = Continue \<lparr>path = replicate k CHR ''a'' @ ''/'', n = i, unsafePath = [],
        vfs_state = ((), Suc l, c)\<rparr>"
proof -
  let ?v = "chain_vars k i l c"
  have nc: "next_component (unsafePath ?v) = (replicate k CHR ''a'', [])"
    using next_component_sep[of "replicate k CHR ''a''" "[]"] by simp
  have cp: "Clean (Separator # path ?v @ replicate k CHR ''a'') = CHR ''/'' # replicate k CHR ''a''"
    using Clean_as[OF assms(1)] by (simp add: Separator_def)
  have fp: "Clean (''/safe'' @ Clean (Separator # path ?v @ replicate k CHR ''a''))
      = ''/safe/'' @ replicate k CHR ''a''"
    unfolding cp by (rule Clean_safe_as[OF assms(1)])
  have ne: "Clean (Separator # path ?v @ replicate k CHR ''a'') \<noteq> [Separator]"
    unfolding cp using assms(1) by (cases k) (auto simp: Separator_def)
  have ls: "Lstat (counting (chain_fs m final))
      (Clean (''/safe'' @ Clean (Separator # path ?v @ replicate k CHR ''a''))) (vfs_state ?v)
      = (Inr file_info, ((), Suc l, c))"
    unfolding fp using chain_Lstat[OF assms(1), of m final l c] assms(2) by simp
  have u: "unsafePath ?v \<noteq> []" by simp
  have i: "n ?v \<le> 255" using assms(3) by simp
  show ?thesis
    using step_Lstat[OF u i nc ne ls]
    by (simp add: file_info_def Separator_def)
qed

lemma chain_cycle:
  "SecureJoinVFS ''/safe'' ''a'' (counting (chain_fs 256 ''a'')) ((), 0, 0)
   = (Inl (PathError ''SecureJoin'' ''/safe/a/'' (Errno ELOOP)), ((), 256, 256))"
proof -
  let ?fs = "counting (chain_fs 256 ''a'')"
  let ?v = "\<lparr>path = [], n = 256, unsafePath = ''a/'', vfs_state = ((), 256 :: nat, 256 :: nat)\<rparr>"
  have a: "step ''/safe'' ?fs (chain_vars 256 255 255 255) = Continue ?v"
    using chain_step_link[of 256 256 255 "''a''" 255 255]
    by (simp add: IsAbs_def HasPrefix_def Separator_def)
  have b: "step ''/safe'' ?fs ?v
      = Return (Inl (PathError ''SecureJoin'' ''/safe/a/'' (Errno ELOOP))) ((), 256, 256)"
    by (simp add: step_def)
  show ?thesis
    using chain_start[of 256 "''a''"] by (simp add: loop_Continue[OF a] loop_Return[OF b])
qed

lemma chain_into_itself:
  "SecureJoinVFS ''/safe'' ''a'' (counting (chain_fs 256 ''aa'')) ((), 0, 0)
   = (Inl (PathError ''SecureJoin'' ''/safe/aa/'' (Errno ELOOP)), ((), 256, 256))"
proof -
  let ?fs = "counting (chain_fs 256 ''aa'')"
  let ?v = "\<lparr>path = [], n = 256, unsafePath = ''aa/'', vfs_state = ((), 256 :: nat, 256 :: nat)\<rparr>"
  have a: "step ''/safe'' ?fs (chain_vars 256 255 255 255) = Continue ?v"
    using chain_step_link[of 256 256 255 "''aa''" 255 255]
    by (simp add: IsAbs_def HasPrefix_def Separator_def)
  have b: "step ''/safe'' ?fs ?v
      = Return (Inl (PathError ''SecureJoin'' ''/safe/aa/'' (Errno ELOOP))) ((), 256, 256)"
    by (simp add: step_def)
  show ?thesis
    using chain_start[of 256 "''aa''"] by (simp add: loop_Continue[OF a] loop_Return[OF b])
qed

lemma chain_shortcut:
  "SecureJoinVFS ''/safe'' ''a'' (counting (chain_fs 256 ''/safe/t'')) ((), 0, 0)
   = (Inr ''/safe/t'', ((), 256, 256))"
proof -
  let ?fs = "counting (chain_fs 256 ''/safe/t'')"
  have a: "step ''/safe'' ?fs (chain_vars 256 255 255 255)
      = Return (Inr ''/safe/t'') ((), 256, 256)"
    using chain_step_link[of 256 256 255 "''/safe/t''" 255 255]
    by (simp add: IsAbs_def HasPrefix_def Separator_def Clean_def clean_elem_def)
  show ?thesis
    using chain_start[of 256 "''/safe/t''"] by (simp add: loop_Return[OF a])
qed

lemma as_not_abs: "\<not> IsAbs (replicate k CHR ''a'')"
  by (cases k) (simp_all add: IsAbs_def HasPrefix_def Separator_def)

lemma chain_to_file_any:
  assumes "2 \<le> m" and "m \<le> 255"
  shows "SecureJoinVFS ''/safe'' ''a'' (counting (chain_fs m (replicate (Suc m) CHR ''a''))) ((), 0, 0)
   = (Inr (''/safe/'' @ replicate (Suc m) CHR ''a''), ((), Suc m, m))"
proof -
  let ?final = "replicate (Suc m) CHR ''a''"
  let ?fs = "counting (chain_fs m ?final)"
  let ?w = "\<lparr>path = ?final @ ''/'', n = m, unsafePath = [], vfs_state = ((), Suc m, m)\<rparr>"
  have m1: "1 \<le> m" "m - 1 \<le> 255" "Suc (m - 1) = m" "m - 1 + 1 = m"
    using assms by simp_all
  have a: "step ''/safe'' ?fs (chain_vars m (m - 1) (m - 1) (m - 1))
      = Continue (chain_vars (Suc m) m m m)"
    using chain_step_link[OF m1(1) order_refl m1(2), of ?final "m - 1" "m - 1"]
      as_not_abs[of "Suc m"] m1(3,4)
    by (simp add: Let_def del: replicate_Suc)
  have b: "step ''/safe'' ?fs (chain_vars (Suc m) m m m) = Continue ?w"
    by (rule chain_step_file) (use assms in simp_all)
  have "Clean (Separator # ?final @ ''/'') = CHR ''/'' # ?final"
    using Clean_rooted_trailing_sep[of ?final] Clean_as[of "Suc m"]
    by (simp add: Separator_def del: replicate_Suc)
  then have c: "step ''/safe'' ?fs ?w = Return (Inr (''/safe/'' @ ?final)) ((), Suc m, m)"
    using Clean_safe_as[of "Suc m"] by (simp add: step_def del: replicate_Suc)
  have "m \<le> 256"
    using assms(2) by simp
  note chain_start[OF assms(1) this, of ?final]
  also note loop_Continue[OF a]
  also note loop_Continue[OF b]
  also note loop_Return[OF c]
  finally show ?thesis .
qed

lemma chain_to_file:
  "SecureJoinVFS ''/safe'' ''a'' (counting (chain_fs 254 (replicate 255 CHR ''a''))) ((), 0, 0)
   = (Inr (''/safe/'' @ replicate 255 CHR ''a''), ((), 255, 254))"
proof -
  have "Suc 254 = (255 :: nat)" by simp
  with chain_to_file_any[of 254] show ?thesis
    by (simp del: replicate_Suc)
qed

section \<open>The depth ceiling\<close>

lemma step_depth:
  "unsafePath v \<noteq> [] \<Longrightarrow> 255 < n v \<Longrightarrow>
   step root vfs v = Return (Inl (PathError ''SecureJoin'' (root @ ''/'' @ unsafePath v)
     (Errno ELOOP))) (vfs_state v)"
  by (simp add: step_def)

lemma step_error_source:
  assumes "n v \<le> 255" and "step root vfs v = Return (Inl e) s'"
  shows "\<exists>name s. Lstat vfs name s = (Inl e, s') \<or> Readlink vfs name s = (Inl e, s')"
proof -
  from assms(2) have ne: "unsafePath v \<noteq> []"
    by (auto simp: step_def)
  obtain p rest where nc: "next_component (unsafePath v) = (p, rest)"
    by (cases "next_component (unsafePath v)")
  let ?fullP = "Clean (root @ Clean (Separator # path v @ p))"
  obtain r s1 where ls: "Lstat vfs ?fullP (vfs_state v) = (r, s1)"
    by (cases "Lstat vfs ?fullP (vfs_state v)")
  obtain d s2 where rl: "Readlink vfs ?fullP s1 = (d, s2)"
    by (cases "Readlink vfs ?fullP s1")
  from assms ne nc ls rl have "(r = Inl e \<and> s1 = s') \<or> (d = Inl e \<and> s2 = s')"
    by (auto simp: step_def Let_def split: if_splits sum.splits)
  with ls rl show ?thesis by blast
qed

lemma step_counter:
  "step root vfs v = Continue v' \<Longrightarrow> n v \<le> n v' \<and> n v' \<le> n v + 1"
  using step_progress[of root vfs v v'] by auto

lemma step_counting:
  assumes "step root (counting vfs) v = Continue v'"
  shows "snd (snd (vfs_state v')) + n v = n v' + snd (snd (vfs_state v))"
proof -
  from assms have ne: "unsafePath v \<noteq> []"
    by (auto simp: step_def)
  obtain p rest where nc: "next_component (unsafePath v) = (p, rest)"
    by (cases "next_component (unsafePath v)")
  obtain s l c where vs: "vfs_state v = (s, l, c)"
    by (cases "vfs_state v")
  let ?fullP = "Clean (root @ Clean (Separator # path v @ p))"
  obtain r s1 where ls: "Lstat vfs ?fullP s = (r, s1)"
    by (cases "Lstat vfs ?fullP s")
  obtain d s2 where rl: "Readlink vfs ?fullP s1 = (d, s2)"
    by (cases "Readlink vfs ?fullP s1")
  have cl: "Lstat (counting vfs) ?fullP (s, l, c) = (r, (s1, Suc l, c))"
    using ls by (simp add: counting_def)
  have cr: "Readlink (counting vfs) ?fullP (s1, Suc l, c) = (d, (s2, Suc l, Suc c))"
    using rl by (simp add: counting_def)
  from assms ne nc vs cl cr show ?thesis
    by (auto simp: step_def Let_def split: if_splits sum.splits)
qed

lemma reach_counting:
  assumes "reach root (counting vfs) v0 v"
  shows "snd (snd (vfs_state v)) + n v0 = n v + snd (snd (vfs_state v0))"
  using assms
proof (induction rule: reach.induct)
  case reach_refl
  show ?case by simp
next
  case (reach_step v v')
  from step_counting[OF reach_step.hyps(2)] reach_step.IH show ?case by simp
qed

text \<open>
  Claim C4, amended. The resolver raises its depth error exactly at the start of a pass
  with a non-empty remainder and a counter above 255: such a pass returns the error, and
  while the counter is at most 255 every error returned is one that \<open>Lstat\<close> or
  \<open>Readlink\<close> gave. The counter is never reset or decreased, a pass adds at most one to
  it, and at every pass of a call it equals the number of \<open>Readlink\<close> calls made so far.
  A cycle of 256 links forces 256 dereferences and fails with the depth error; a chain
  of 254 links that ends at a regular file is resolved with 254 dereferences.
\<close>

theorem depth_ceiling:
  "(\<forall>v. unsafePath v \<noteq> [] \<and> 255 < n v \<longrightarrow>
      step root vfs v = Return (Inl (PathError ''SecureJoin'' (root @ ''/'' @ unsafePath v)
        (Errno ELOOP))) (vfs_state v))
   \<and> (\<forall>v e s'. n v \<le> 255 \<and> step root vfs v = Return (Inl e) s' \<longrightarrow>
        (\<exists>name s. Lstat vfs name s = (Inl e, s') \<or> Readlink vfs name s = (Inl e, s')))
   \<and> (\<forall>v v'. step root vfs v = Continue v' \<longrightarrow> n v \<le> n v' \<and> n v' \<le> n v + 1)
   \<and> (\<forall>u s v. reach root (counting vfs)
          \<lparr>path = [], n = 0, unsafePath = u, vfs_state = (s, 0, 0)\<rparr> v
        \<longrightarrow> snd (snd (vfs_state v)) = n v)
   \<and> SecureJoinVFS ''/safe'' ''a'' (counting (chain_fs 256 ''a'')) ((), 0, 0)
       = (Inl (PathError ''SecureJoin'' ''/safe/a/'' (Errno ELOOP)), ((), 256, 256))
   \<and> SecureJoinVFS ''/safe'' ''a'' (counting (chain_fs 254 (replicate 255 CHR ''a''))) ((), 0, 0)
       = (Inr (''/safe/'' @ replicate 255 CHR ''a''), ((), 255, 254))"
proof -
  have "snd (snd (vfs_state v)) = n v"
    if "reach root (counting vfs) \<lparr>path = [], n = 0, unsafePath = u, vfs_state = (s, 0, 0)\<rparr> v"
    for u s v
    using reach_counting[OF that] by simp
  with step_depth[of _ root vfs] step_error_source[of _ root vfs] step_counter[of root vfs]
    chain_cycle chain_to_file
  show ?thesis by blast
qed

theorem depth_ceiling_witness:
  "step ''/safe'' empty_fs \<lparr>path = [], n = 256, unsafePath = ''x'', vfs_state = ()\<rparr>
     = Return (Inl (PathError ''SecureJoin'' ''/safe/x'' (Errno ELOOP))) ()
   \<and> step ''/safe'' denied_fs \<lparr>path = [], n = 255, unsafePath = ''x'', vfs_state = ()\<rparr>
     = Return (Inl (PathError ''lstat'' ''/safe/x'' (Errno EACCES))) ()
   \<and> (\<exists>name s. Lstat denied_fs name s = (Inl (PathError ''lstat'' ''/safe/x'' (Errno EACCES)), ())
        \<or> Readlink denied_fs name s = (Inl (PathError ''lstat'' ''/safe/x'' (Errno EACCES)), ()))"
proof -
  let ?v = "\<lparr>path = [], n = 256, unsafePath = ''x'', vfs_state = ()\<rparr>"
  let ?w = "\<lparr>path = [], n = 255, unsafePath = ''x'', vfs_state = ()\<rparr>"
  have d: "step ''/safe'' denied_fs ?w
      = Return (Inl (PathError ''lstat'' ''/safe/x'' (Errno EACCES))) ()"
    by (simp add: step_def lex_simps fs_simps)
  from depth_ceiling[of "''/safe''" empty_fs]
  have "unsafePath ?v \<noteq> [] \<and> 255 < n ?v \<longrightarrow>
      step ''/safe'' empty_fs ?v = Return (Inl (PathError ''SecureJoin''
        (''/safe'' @ ''/'' @ unsafePath ?v) (Errno ELOOP))) (vfs_state ?v)"
    by blast
  then have a: "step ''/safe'' empty_fs ?v
      = Return (Inl (PathError ''SecureJoin'' ''/safe/x'' (Errno ELOOP))) ()"
    by simp
  from depth_ceiling[of "''/safe''" denied_fs]
  have "n ?w \<le> 255 \<and> step ''/safe'' denied_fs ?w
        = Return (Inl (PathError ''lstat'' ''/safe/x'' (Errno EACCES))) () \<longrightarrow>
      (\<exists>name s. Lstat denied_fs name s = (Inl (PathError ''lstat'' ''/safe/x'' (Errno EACCES)), ())
        \<or> Readlink denied_fs name s = (Inl (PathError ''lstat'' ''/safe/x'' (Errno EACCES)), ()))"
    by blast
  with d have "\<exists>name s. Lstat denied_fs name s = (Inl (PathError ''lstat'' ''/safe/x'' (Errno EACCES)), ())
        \<or> Readlink denied_fs name s = (Inl (PathError ''lstat'' ''/safe/x'' (Errno EACCES)), ())"
    by simp
  with a d show ?thesis by blast
qed

text \<open>
  The claim as stated fails: in a chain of 256 links whose last link points to the
  absolute target \<open>/safe/t\<close>, the resolver dereferences 256 links, more than 255, and yet
  succeeds, because the 256th dereference takes the short-circuit before the counter is
  looked at again.
\<close>

theorem depth_ceiling_counterexample:
  "SecureJoinVFS ''/safe'' ''a'' (counting (chain_fs 256 ''/safe/t'')) ((), 0, 0)
   = (Inr ''/safe/t'', ((), 256, 256))"
  by (rule chain_shortcut)

section \<open>The path carried by the depth error\<close>

text \<open>
  Claim C7. The depth error is built from \<open>root\<close> and the variable \<open>unsafePath\<close>, which
  the loop has overwritten by then. In a chain of 256 links under \<open>/safe\<close> whose last
  link points to the second one, resolving \<open>a\<close> fails with a depth error that carries
  \<open>/safe/aa/\<close>, the remainder at the time of the failure, and not \<open>/safe/a\<close>, the pair
  that the caller supplied.
\<close>

theorem depth_error_path:
  "SecureJoinVFS ''/safe'' ''a'' (counting (chain_fs 256 ''aa'')) ((), 0, 0)
     = (Inl (PathError ''SecureJoin'' ''/safe/aa/'' (Errno ELOOP)), ((), 256, 256))
   \<and> ''/safe/aa/'' \<noteq> ''/safe'' @ ''/'' @ ''a''"
  using chain_into_itself by simp

section \<open>The short-circuit and the root\<close>

text \<open>
  The result built after the loop begins with the cleaned root when the root is
  absolute, and so does every result of a capability whose link targets never begin
  with \<open>root\<close> and the separator: only the short-circuit can leave the root.
\<close>

lemma foldl_clean_elem_real:
  "\<forall>e\<in>set es. real_elem e \<Longrightarrow> foldl (clean_elem r) out es = out @ es"
  by (induction es arbitrary: out) (simp_all add: clean_elem_real)

lemma prefix_join_elems: "prefix (join_elems a) (join_elems (a @ b))"
proof (induction a rule: join_elems.induct)
  case 1
  show ?case by simp
next
  case (2 e)
  show ?case by (cases b) simp_all
next
  case (3 e e' es)
  then show ?case by simp
qed

lemma canon_rooted_real: "canon True st \<Longrightarrow> \<forall>e\<in>set st. real_elem e"
  unfolding canon_def by auto

lemma Clean_root_prefix:
  assumes "IsAbs root"
  shows "prefix (Clean root) (Clean (root @ Clean (Separator # x)))"
proof -
  from assms obtain cs where root: "root = CHR ''/'' # cs"
    by (cases root) (auto simp: IsAbs_def HasPrefix_def Separator_def)
  let ?st = "foldl (clean_elem True) [] (elements x)"
  let ?rt = "foldl (clean_elem True) [] (elements cs)"
  have real: "\<forall>e\<in>set ?st. real_elem e"
    by (rule canon_rooted_real[OF canon_elements])
  have "foldl (clean_elem True) [] (elements (cs @ CHR ''/'' # join_elems ?st)) = ?rt @ ?st"
  proof (cases "?st = []")
    case True
    then show ?thesis by (simp add: elements_append_sep)
  next
    case False
    from elements_join_elems[OF False] canon_sep_free[OF canon_elements, of True x]
    have "elements (join_elems ?st) = ?st" by simp
    then show ?thesis
      by (simp add: elements_append_sep foldl_clean_elem_real[OF real])
  qed
  then have "Clean (root @ Clean (Separator # x)) = CHR ''/'' # join_elems (?rt @ ?st)"
    by (simp add: root Separator_def Clean_rooted)
  moreover have "Clean root = CHR ''/'' # join_elems ?rt"
    by (simp add: root Clean_rooted)
  ultimately show ?thesis
    by (simp add: prefix_join_elems)
qed

lemma final_result_prefixed:
  assumes "IsAbs root" and "unsafePath v = []"
  shows "\<exists>r. SecureJoinVFS_loop root vfs v = (Inr r, vfs_state v) \<and> HasPrefix r (Clean root)"
proof -
  from assms(2) have "step root vfs v
      = Return (Inr (Clean (root @ Clean (Separator # path v)))) (vfs_state v)"
    by (simp add: step_def)
  from loop_Return[OF this] Clean_root_prefix[OF assms(1)] show ?thesis
    by (simp add: HasPrefix_def)
qed

lemma results_prefixed:
  assumes "IsAbs root"
    and "\<And>name s dest s'. Readlink vfs name s = (Inr dest, s')
      \<Longrightarrow> \<not> HasPrefix dest (root @ [Separator])"
    and "SecureJoinVFS_loop root vfs v = (Inr r, s1)"
  shows "HasPrefix r (Clean root)"
  using assms
proof (induction root vfs v rule: SecureJoinVFS_loop.induct)
  case (1 root vfs v)
  show ?case
  proof (cases "step root vfs v")
    case (Return res s)
    with "1.prems"(3) have st: "step root vfs v = Return (Inr r) s1"
      by (simp add: loop_Return)
    have "r = Clean (root @ Clean (Separator # path v))"
      using st "1.prems"(2)
      by (auto simp: step_def Let_def split: if_splits prod.splits sum.splits)
    with Clean_root_prefix[OF "1.prems"(1)] show ?thesis
      by (simp add: HasPrefix_def)
  next
    case (Continue v')
    with "1.prems"(3) have "SecureJoinVFS_loop root vfs v' = (Inr r, s1)"
      by (simp add: loop_Continue)
    from "1.IH"[OF Continue "1.prems"(1,2) this] show ?thesis .
  qed
qed

text \<open>
  Claim C1. The short-circuit tests the raw target for the prefix \<open>root\<close> and separator
  and returns the cleaned target. For the link \<open>/safe/link\<close> with the stored target
  \<open>/safe/../etc/passwd\<close> the test succeeds and the resolver returns \<open>/etc/passwd\<close>,
  which neither begins with the cleaned root nor lies below it.
\<close>

theorem short_circuit_escapes_root:
  "SecureJoinVFS ''/safe'' ''link''
     (one_entry_fs ''/safe/link'' link_info ''/safe/../etc/passwd'') ()
     = (Inr ''/etc/passwd'', ())
   \<and> \<not> HasPrefix ''/etc/passwd'' (Clean ''/safe'')"
proof -
  have "step ''/safe'' (one_entry_fs ''/safe/link'' link_info ''/safe/../etc/passwd'')
      \<lparr>path = [], n = 0, unsafePath = ''link'', vfs_state = ()\<rparr>
      = Return (Inr ''/etc/passwd'') ()"
    by (simp add: step_def lex_simps fs_simps)
  from loop_Return[OF this] show ?thesis
    by (simp add: SecureJoinVFS_def HasPrefix_def lex_simps)
qed

end
